theory Spec2Isabelle
  imports Main "HOL-Library.Word"
begin

section \<open>The branch prediction unit of \<^verbatim>\<open>src/cpu/pred/bpred_unit.cc\<close>\<close>

subsection \<open>Data model\<close>

text \<open>
  \<^verbatim>\<open>Addr\<close> and \<^verbatim>\<open>InstSeqNum\<close> are 64-bit unsigned integers. A thread id indexes the
  vector \<^verbatim>\<open>predHist\<close>. An opaque history pointer (\<^verbatim>\<open>void *\<close>) is a token; \<open>None\<close> is
  \<^verbatim>\<open>nullptr\<close>. The value of \<^verbatim>\<open>getBranchType(inst)\<close> is an opaque tag.
\<close>

type_synonym Addr = "64 word"
type_synonym InstSeqNum = "64 word"
type_synonym ThreadID = nat
type_synonym token = "nat option"
type_synonym BranchType = nat

text \<open>
  A \<^verbatim>\<open>PCStateBase\<close>: the unit reads \<^verbatim>\<open>instAddr()\<close> and passes whole values on; whatever
  else the architecture keeps in it is the second component.
\<close>

datatype PCStateBase = PCState (instAddr: Addr) (archRest: nat)

text \<open>
  The instruction handle, with the predicates and the two virtual methods
  (\<^verbatim>\<open>advancePC\<close>, \<^verbatim>\<open>buildRetPC\<close>) that the unit calls on it.
\<close>

record StaticInst =
  isUncondCtrl :: bool
  isReturn :: bool
  isCall :: bool
  isDirectCtrl :: bool
  advancePC :: "PCStateBase \<Rightarrow> PCStateBase"
  buildRetPC :: "PCStateBase \<Rightarrow> PCStateBase \<Rightarrow> PCStateBase"

record PredictorHistory =
  seqNum :: InstSeqNum
  pc :: Addr
  bpHistory :: token
  indirectHistory :: token
  rasHistory :: token
  tid :: ThreadID
  predTaken :: bool
  pushedRAS :: bool
  wasIndirect :: bool
  target :: Addr
  inst :: StaticInst
  mispredict :: bool

text \<open>
  Modelled from the spec: the constructor of \<^verbatim>\<open>PredictorHistory\<close> is declared in
  \<^verbatim>\<open>bpred_unit.hh\<close>, which is not among the sources. The spec (4.E) says that it takes
  (seqNum, pc, predTaken, bpHistory, indirectHistory, tid, inst) and defaults the rest:
  \<open>mispredict\<close> is false until a squash marks the entry, \<open>wasIndirect\<close> and \<open>pushedRAS\<close>
  record events that have not happened yet, and \<open>rasHistory\<close> is the null token. The
  \<open>target\<close> field is overwritten by \<open>predict\<close> before the record is stored.
\<close>

definition mkPredictorHistory ::
  "InstSeqNum \<Rightarrow> Addr \<Rightarrow> bool \<Rightarrow> token \<Rightarrow> token \<Rightarrow> ThreadID \<Rightarrow> StaticInst \<Rightarrow> PredictorHistory"
where
  "mkPredictorHistory sn a pred_taken bp_history indirect_history t i =
     \<lparr> seqNum = sn, pc = a, bpHistory = bp_history, indirectHistory = indirect_history,
       rasHistory = None, tid = t, predTaken = pred_taken, pushedRAS = False,
       wasIndirect = False, target = 0, inst = i, mispredict = False \<rparr>"

record BPredUnitStats =
  lookups :: nat
  condPredicted :: nat
  condIncorrect :: nat
  BTBLookups :: nat
  BTBUpdates :: nat
  BTBHits :: nat
  RASUsed :: nat
  RASIncorrect :: nat
  indirectLookups :: nat
  indirectHits :: nat
  indirectMisses :: nat
  indirectMispredicted :: nat

subsection \<open>The collaborators\<close>

text \<open>
  The direction predictor (the pure virtual methods \<^verbatim>\<open>lookup\<close>, \<^verbatim>\<open>uncondBranch\<close>,
  \<^verbatim>\<open>btbUpdate\<close>, \<^verbatim>\<open>squash\<close>, \<^verbatim>\<open>update\<close>), the BTB, the indirect predictor, the RAS and the
  two probe points are outside this file. Every call the unit makes to one of them is a
  value of \<open>call\<close>, holding the arguments as the source passes them (a history argument
  holds the token that goes in).
\<close>

datatype call =
    ppBranches_notify nat
  | ppMisses_notify nat
  | A_uncondBranch ThreadID Addr token
  | A_lookup ThreadID Addr token
  | A_btbUpdate ThreadID Addr token
  | A_squash ThreadID token
  | A_update ThreadID Addr bool token bool StaticInst Addr
  | btb_lookup ThreadID Addr BranchType
  | btb_update ThreadID Addr PCStateBase BranchType
  | iPred_lookup ThreadID InstSeqNum Addr token
  | iPred_update ThreadID InstSeqNum Addr bool bool PCStateBase BranchType token
  | iPred_commit ThreadID InstSeqNum token
  | iPred_squash ThreadID InstSeqNum token
  | ras_pop ThreadID token
  | ras_push ThreadID PCStateBase token
  | ras_commit ThreadID bool BranchType token
  | ras_squash ThreadID token

text \<open>
  What a call gives back: the direction (\<^verbatim>\<open>lookup\<close>), the address or null pointer
  (\<^verbatim>\<open>btb->lookup\<close>, \<^verbatim>\<open>iPred->lookup\<close>, \<^verbatim>\<open>ras->pop\<close>), and the token the callee leaves
  in the history argument. The unit reads only the components that the called method has.
\<close>

record ret =
  ret_taken :: bool
  ret_pc :: "PCStateBase option"
  ret_hist :: token

type_synonym calllog = "(call \<times> ret) list"

text \<open>
  Modelled from the spec: the collaborator classes and \<^verbatim>\<open>getBranchType\<close> are declared in
  headers that are not among the sources; section 6 of the spec gives their interfaces.
  A collaborator is deterministic, so what it answers is a function \<open>respond\<close> of the calls
  made so far and of the present call; nothing else is assumed about it. Every history
  argument is treated as in-out (the answer carries the token left in it), which covers a
  by-value declaration as the case where the token comes back unchanged. The indirect
  predictor and the RAS may be null pointers; the BTB is always there.
\<close>

record collab =
  iPred_present :: bool
  ras_present :: bool
  respond :: "calllog \<Rightarrow> call \<Rightarrow> ret"
  getBranchType :: "StaticInst \<Rightarrow> BranchType"

record BPredUnit =
  predHist :: "PredictorHistory list list"
  stats :: BPredUnitStats
  calls :: calllog

datatype error = NullDeref | AssertFail | BadThreadID

definition invoke :: "collab \<Rightarrow> call \<Rightarrow> BPredUnit \<Rightarrow> ret \<times> BPredUnit" where
  "invoke env c s =
     (let r = respond env (calls s) c in (r, s\<lparr>calls := calls s @ [(c, r)]\<rparr>))"

definition bump :: "(BPredUnitStats \<Rightarrow> BPredUnitStats) \<Rightarrow> BPredUnit \<Rightarrow> BPredUnit" where
  "bump f s = s\<lparr>stats := f (stats s)\<rparr>"

definition bind_err :: "error + 'a \<Rightarrow> ('a \<Rightarrow> error + 'b) \<Rightarrow> error + 'b" where
  "bind_err m f = (case m of Inl e \<Rightarrow> Inl e | Inr x \<Rightarrow> f x)"

subsection \<open>\<^verbatim>\<open>BPredUnit::predict\<close>\<close>

text \<open>Lines 135 to 157: the counters, the probe and the direction.\<close>

definition predict_direction ::
  "collab \<Rightarrow> StaticInst \<Rightarrow> PCStateBase \<Rightarrow> ThreadID \<Rightarrow> BPredUnit \<Rightarrow> bool \<times> token \<times> BPredUnit"
where
  "predict_direction env i pcs t s =
     (let s1 = bump (lookups_update Suc) s;
          s2 = snd (invoke env (ppBranches_notify 1) s1)
      in if isUncondCtrl i then
           (let (r, s3) = invoke env (A_uncondBranch t (instAddr pcs) None) s2
            in (True, ret_hist r, s3))
         else
           (let s3 = bump (condPredicted_update Suc) s2;
                (r, s4) = invoke env (A_lookup t (instAddr pcs) None) s3
            in (ret_taken r, ret_hist r, s4)))"

text \<open>
  The rest of \<open>predict\<close> works on the local variables \<^verbatim>\<open>pred_taken\<close>, \<^verbatim>\<open>target\<close> and
  \<^verbatim>\<open>predict_record\<close> and on the unit.
\<close>

type_synonym frame = "bool \<times> PCStateBase \<times> PredictorHistory \<times> BPredUnit"

text \<open>Lines 171 to 183: a return pops the RAS, through the pointer \<^verbatim>\<open>ras\<close> unchecked.\<close>

definition predict_return :: "collab \<Rightarrow> StaticInst \<Rightarrow> ThreadID \<Rightarrow> frame \<Rightarrow> error + frame" where
  "predict_return env i t fr =
     (case fr of (pred_taken, tg, rc, s) \<Rightarrow>
        if isReturn i then
          (let s1 = bump (RASUsed_update Suc) s
           in if \<not> ras_present env then Inl NullDeref
              else (let (r, s2) = invoke env (ras_pop t (rasHistory rc)) s1
                    in Inr (pred_taken,
                            (case ret_pc r of Some return_addr \<Rightarrow> return_addr | None \<Rightarrow> tg),
                            rc\<lparr>rasHistory := ret_hist r\<rparr>, s2)))
        else Inr fr)"

text \<open>Lines 185 to 197: a call pushes the return address built from the branch PC.\<close>

definition predict_call ::
  "collab \<Rightarrow> StaticInst \<Rightarrow> PCStateBase \<Rightarrow> ThreadID \<Rightarrow> frame \<Rightarrow> error + frame"
where
  "predict_call env i pcs t fr =
     (case fr of (pred_taken, tg, rc, s) \<Rightarrow>
        if isCall i then
          (if \<not> ras_present env then Inl NullDeref
           else (let (r, s1) = invoke env (ras_push t (buildRetPC i pcs pcs) (rasHistory rc)) s
                 in Inr (pred_taken, tg, rc\<lparr>rasHistory := ret_hist r\<rparr>, s1)))
        else Inr fr)"

text \<open>Lines 203 to 235: the BTB is asked.\<close>

definition predict_btb ::
  "collab \<Rightarrow> StaticInst \<Rightarrow> PCStateBase \<Rightarrow> ThreadID \<Rightarrow> token \<Rightarrow> frame \<Rightarrow> error + frame"
where
  "predict_btb env i pcs t bp_history fr =
     (case fr of (pred_taken, tg, rc, s) \<Rightarrow>
        (let s1 = bump (BTBLookups_update Suc) s;
             (r, s2) = invoke env (btb_lookup t (instAddr pcs) (getBranchType env i)) s1
         in case ret_pc r of
              Some btb_target \<Rightarrow> Inr (pred_taken, btb_target, rc, bump (BTBHits_update Suc) s2)
            | None \<Rightarrow>
               (let rc1 = rc\<lparr>predTaken := False\<rparr>
                in if \<not> isCall i \<and> \<not> isReturn i then
                     (let s3 = snd (invoke env (A_btbUpdate t (instAddr pcs) bp_history) s2)
                      in Inr (False, advancePC i tg, rc1, s3))
                   else if isCall i \<and> \<not> isUncondCtrl i then
                     (if \<not> ras_present env then Inl NullDeref
                      else (let (q, s3) = invoke env (ras_squash t (rasHistory rc1)) s2
                            in Inr (False, advancePC i tg,
                                    rc1\<lparr>rasHistory := ret_hist q, pushedRAS := False\<rparr>, s3)))
                   else Inr (False, advancePC i tg, rc1, s2))))"

text \<open>Lines 237 to 266: the indirect predictor is asked.\<close>

definition predict_indirect ::
  "collab \<Rightarrow> StaticInst \<Rightarrow> InstSeqNum \<Rightarrow> PCStateBase \<Rightarrow> ThreadID \<Rightarrow> frame \<Rightarrow> error + frame"
where
  "predict_indirect env i sn pcs t fr =
     (case fr of (pred_taken, tg, rc, s) \<Rightarrow>
        (let rc1 = rc\<lparr>wasIndirect := True\<rparr>;
             s1 = bump (indirectLookups_update Suc) s;
             (r, s2) = invoke env (iPred_lookup t sn (instAddr pcs) (indirectHistory rc1)) s1;
             rc2 = rc1\<lparr>indirectHistory := ret_hist r\<rparr>
         in case ret_pc r of
              Some itarget \<Rightarrow> Inr (pred_taken, itarget, rc2, bump (indirectHits_update Suc) s2)
            | None \<Rightarrow>
               (let s3 = bump (indirectMisses_update Suc) s2;
                    rc3 = rc2\<lparr>predTaken := False\<rparr>
                in if \<not> isCall i \<and> \<not> isReturn i then Inr (False, advancePC i tg, rc3, s3)
                   else if isCall i \<and> \<not> isUncondCtrl i then
                     (if \<not> ras_present env then Inl NullDeref
                      else (let (q, s4) = invoke env (ras_squash t (rasHistory rc3)) s3
                            in Inr (False, advancePC i tg, rc3\<lparr>rasHistory := ret_hist q\<rparr>, s4)))
                   else Inr (False, advancePC i tg, rc3, s3))))"

text \<open>Lines 168 to 271: the target of a branch predicted taken, or the next PC.\<close>

definition predict_target ::
  "collab \<Rightarrow> StaticInst \<Rightarrow> InstSeqNum \<Rightarrow> PCStateBase \<Rightarrow> ThreadID \<Rightarrow> token \<Rightarrow> frame \<Rightarrow> error + frame"
where
  "predict_target env i sn pcs t bp_history fr =
     (case fr of (pred_taken, tg, rc, s) \<Rightarrow>
        if pred_taken then
          bind_err (predict_return env i t fr) (\<lambda>fr1.
          bind_err (predict_call env i pcs t fr1) (\<lambda>fr2.
            if \<not> isReturn i then
              (if isDirectCtrl i \<or> \<not> iPred_present env
               then predict_btb env i pcs t bp_history fr2
               else predict_indirect env i sn pcs t fr2)
            else Inr fr2))
        else Inr (pred_taken, advancePC i tg, rc, s))"

text \<open>Lines 272 to 291: the record is completed and pushed at the front of the queue.\<close>

definition predict_finish ::
  "collab \<Rightarrow> StaticInst \<Rightarrow> InstSeqNum \<Rightarrow> ThreadID \<Rightarrow> frame \<Rightarrow> bool \<times> PCStateBase \<times> BPredUnit"
where
  "predict_finish env i sn t fr =
     (case fr of (pred_taken, tg, rc, s) \<Rightarrow>
        (let rc1 = rc\<lparr>target := instAddr tg\<rparr>;
             (rc2, s1) =
               (if iPred_present env then
                  (let (r, s') = invoke env (iPred_update t sn (pc rc1) False (predTaken rc1) tg
                                               (getBranchType env i) (indirectHistory rc1)) s
                   in (rc1\<lparr>indirectHistory := ret_hist r\<rparr>, s'))
                else (rc1, s))
         in (pred_taken, tg, s1\<lparr>predHist := (predHist s1)[t := rc2 # predHist s1 ! t]\<rparr>)))"

text \<open>
  \<open>predict\<close> gives the prediction, the new value of the PC argument and the unit. The
  vector \<^verbatim>\<open>predHist\<close> has no element for a thread id out of its range.
\<close>

definition predict ::
  "collab \<Rightarrow> StaticInst \<Rightarrow> InstSeqNum \<Rightarrow> PCStateBase \<Rightarrow> ThreadID \<Rightarrow> BPredUnit
     \<Rightarrow> error + (bool \<times> PCStateBase \<times> BPredUnit)"
where
  "predict env i sn pcs t s =
     (if \<not> t < length (predHist s) then Inl BadThreadID
      else (case predict_direction env i pcs t s of (pred_taken, bp_history, s1) \<Rightarrow>
        bind_err
          (predict_target env i sn pcs t bp_history
             (pred_taken, pcs,
              mkPredictorHistory sn (instAddr pcs) pred_taken bp_history None t i, s1))
          (\<lambda>fr. Inr (predict_finish env i sn t fr))))"

subsection \<open>\<^verbatim>\<open>BPredUnit::update\<close>: commit\<close>

text \<open>
  Lines 300 to 322. The loop pops the back of the queue while its sequence number is at
  most \<open>done_sn\<close>; each turn commits the record at the back (lines 303 to 319) and
  shortens the queue, so the loop ends.
\<close>

definition commit_record :: "collab \<Rightarrow> ThreadID \<Rightarrow> PredictorHistory \<Rightarrow> BPredUnit \<Rightarrow> BPredUnit" where
  "commit_record env t b s =
     (let s1 = snd (invoke env (A_update t (pc b) (predTaken b) (bpHistory b) False
                                  (inst b) (target b)) s);
          s2 = (if iPred_present env
                then snd (invoke env (iPred_commit t (seqNum b) (indirectHistory b)) s1)
                else s1)
      in if ras_present env
         then snd (invoke env (ras_commit t (mispredict b) (getBranchType env (inst b))
                                 (rasHistory b)) s2)
         else s2)"

function update_loop :: "collab \<Rightarrow> InstSeqNum \<Rightarrow> ThreadID \<Rightarrow> BPredUnit \<Rightarrow> BPredUnit" where
  "update_loop env done_sn t s =
     (if t < length (predHist s) \<and> predHist s ! t \<noteq> [] \<and> seqNum (last (predHist s ! t)) \<le> done_sn
      then
        (let s3 = commit_record env t (last (predHist s ! t)) s
         in update_loop env done_sn t (s3\<lparr>predHist := (predHist s3)[t := butlast (predHist s3 ! t)]\<rparr>))
      else s)"
  by pat_completeness auto
termination
  by (relation "measure (\<lambda>(env, done_sn, t, s). length (predHist s ! t))")
     (auto simp: commit_record_def invoke_def Let_def)

definition update :: "collab \<Rightarrow> InstSeqNum \<Rightarrow> ThreadID \<Rightarrow> BPredUnit \<Rightarrow> error + BPredUnit" where
  "update env done_sn t s =
     (if \<not> t < length (predHist s) then Inl BadThreadID else Inr (update_loop env done_sn t s))"

subsection \<open>\<^verbatim>\<open>BPredUnit::squash\<close>: the flush form\<close>

text \<open>
  Lines 330 to 359. The loop pops the front of the queue while its sequence number is
  greater than \<open>squashed_sn\<close>; each turn undoes the record at the front (lines 333 to
  348), and \<^verbatim>\<open>assert(ras)\<close> stops the run when it fails.
\<close>

definition squash_record :: "collab \<Rightarrow> ThreadID \<Rightarrow> PredictorHistory \<Rightarrow> BPredUnit \<Rightarrow> BPredUnit" where
  "squash_record env t f s =
     (let s1 = (if rasHistory f \<noteq> None
                then snd (invoke env (ras_squash t (rasHistory f)) s) else s);
          s2 = snd (invoke env (A_squash t (bpHistory f)) s1)
      in if iPred_present env
         then snd (invoke env (iPred_squash t (seqNum f) (indirectHistory f)) s2)
         else s2)"

function squash_loop :: "collab \<Rightarrow> InstSeqNum \<Rightarrow> ThreadID \<Rightarrow> BPredUnit \<Rightarrow> error + BPredUnit" where
  "squash_loop env squashed_sn t s =
     (if t < length (predHist s) \<and> predHist s ! t \<noteq> [] \<and> squashed_sn < seqNum (hd (predHist s ! t))
      then
        (let f = hd (predHist s ! t)
         in if rasHistory f \<noteq> None \<and> \<not> ras_present env then Inl AssertFail
            else
              (let s3 = squash_record env t f s
               in squash_loop env squashed_sn t
                    (s3\<lparr>predHist := (predHist s3)[t := tl (predHist s3 ! t)]\<rparr>)))
      else Inr s)"
  by pat_completeness auto
termination
  by (relation "measure (\<lambda>(env, squashed_sn, t, s). length (predHist s ! t))")
     (auto simp: squash_record_def invoke_def Let_def)

definition squash :: "collab \<Rightarrow> InstSeqNum \<Rightarrow> ThreadID \<Rightarrow> BPredUnit \<Rightarrow> error + BPredUnit" where
  "squash env squashed_sn t s =
     (if \<not> t < length (predHist s) then Inl BadThreadID else squash_loop env squashed_sn t s)"

subsection \<open>\<^verbatim>\<open>BPredUnit::squash\<close>: the misprediction form\<close>

text \<open>Lines 441 to 476: the RAS is repaired on the boundary record \<open>h\<close>.\<close>

definition squash_ras ::
  "collab \<Rightarrow> PCStateBase \<Rightarrow> bool \<Rightarrow> ThreadID \<Rightarrow> PredictorHistory \<times> BPredUnit
     \<Rightarrow> PredictorHistory \<times> BPredUnit"
where
  "squash_ras env corr_target actually_taken t hs =
     (case hs of (h, s) \<Rightarrow>
        if ras_present env then
          (if actually_taken \<and> rasHistory h = None then
             (let (h1, s1) =
                    (if isReturn (inst h)
                     then (let (r, s') = invoke env (ras_pop t (rasHistory h)) s
                           in (h\<lparr>rasHistory := ret_hist r\<rparr>, s'))
                     else (h, s))
              in if isCall (inst h1)
                 then (let (r, s') = invoke env (ras_push t
                                        (buildRetPC (inst h1) corr_target corr_target)
                                        (rasHistory h1)) s1
                       in (h1\<lparr>rasHistory := ret_hist r\<rparr>, s'))
                 else (h1, s1))
           else if \<not> actually_taken \<and> rasHistory h \<noteq> None then
             (let (r, s') = invoke env (ras_squash t (rasHistory h)) s
              in (h\<lparr>rasHistory := ret_hist r\<rparr>, s'))
           else (h, s))
        else (h, s))"

text \<open>Lines 478 to 491: the BTB learns the target of a taken branch it was asked about.\<close>

definition squash_btb ::
  "collab \<Rightarrow> PCStateBase \<Rightarrow> bool \<Rightarrow> ThreadID \<Rightarrow> PredictorHistory \<times> BPredUnit
     \<Rightarrow> PredictorHistory \<times> BPredUnit"
where
  "squash_btb env corr_target actually_taken t hs =
     (case hs of (h, s) \<Rightarrow>
        if actually_taken then
          (if wasIndirect h then (h, bump (indirectMispredicted_update Suc) s)
           else (h, snd (invoke env (btb_update t (pc h) corr_target (getBranchType env (inst h)))
                           (bump (BTBUpdates_update Suc) s))))
        else (h, s))"

text \<open>
  Lines 406 to 438: the boundary record \<open>h\<close>, the front of the queue, takes the true
  direction and target; the direction predictor and the indirect predictor are told.
\<close>

definition squash_direction ::
  "collab \<Rightarrow> InstSeqNum \<Rightarrow> PCStateBase \<Rightarrow> bool \<Rightarrow> ThreadID \<Rightarrow> PredictorHistory \<times> BPredUnit
     \<Rightarrow> PredictorHistory \<times> BPredUnit"
where
  "squash_direction env squashed_sn corr_target actually_taken t hs =
     (case hs of (h, s) \<Rightarrow>
        (let s1 = (if rasHistory h \<noteq> None then bump (RASIncorrect_update Suc) s else s);
             h1 = h\<lparr>predTaken := actually_taken, target := instAddr corr_target,
                    mispredict := True\<rparr>;
             (r, s2) = invoke env (A_update t (pc h1) actually_taken (bpHistory h1) True
                                     (inst h1) (instAddr corr_target)) s1;
             h2 = h1\<lparr>bpHistory := ret_hist r\<rparr>
         in if iPred_present env
            then (let (q, s') = invoke env (iPred_update t squashed_sn (pc h2) True
                                   actually_taken corr_target (getBranchType env (inst h2))
                                   (indirectHistory h2)) s2
                  in (h2\<lparr>indirectHistory := ret_hist q\<rparr>, s'))
            else (h2, s2)))"

text \<open>Lines 406 to 491: the three parts in their order.\<close>

definition squash_fix ::
  "collab \<Rightarrow> InstSeqNum \<Rightarrow> PCStateBase \<Rightarrow> bool \<Rightarrow> ThreadID \<Rightarrow> PredictorHistory \<times> BPredUnit
     \<Rightarrow> PredictorHistory \<times> BPredUnit"
where
  "squash_fix env squashed_sn corr_target actually_taken t hs =
     squash_btb env corr_target actually_taken t
       (squash_ras env corr_target actually_taken t
          (squash_direction env squashed_sn corr_target actually_taken t hs))"

text \<open>
  Lines 378 to 496. On entry (lines 380 and 381) the counter \<^verbatim>\<open>condIncorrect\<close> goes up
  and the probe fires. After the flush, an empty queue ends the call; otherwise the front
  must carry \<open>squashed_sn\<close> (the \<^verbatim>\<open>assert\<close> of line 403) and is corrected in place.
\<close>

definition squash_entry :: "collab \<Rightarrow> BPredUnit \<Rightarrow> BPredUnit" where
  "squash_entry env s = snd (invoke env (ppMisses_notify 1) (bump (condIncorrect_update Suc) s))"

definition squash_mispredict ::
  "collab \<Rightarrow> InstSeqNum \<Rightarrow> PCStateBase \<Rightarrow> bool \<Rightarrow> ThreadID \<Rightarrow> BPredUnit \<Rightarrow> error + BPredUnit"
where
  "squash_mispredict env squashed_sn corr_target actually_taken t s =
     (if \<not> t < length (predHist s) then Inl BadThreadID
      else
        (bind_err (squash env squashed_sn t (squash_entry env s)) (\<lambda>s3.
              if predHist s3 ! t \<noteq> [] then
                (if seqNum (hd (predHist s3 ! t)) \<noteq> squashed_sn then Inl AssertFail
                 else (case squash_fix env squashed_sn corr_target actually_taken t
                              (hd (predHist s3 ! t), s3) of
                         (h, s4) \<Rightarrow>
                           Inr (s4\<lparr>predHist := (predHist s4)[t := h # tl (predHist s4 ! t)]\<rparr>)))
              else Inr s3)))"

subsection \<open>Sequences of operations\<close>

text \<open>
  The fetch and commit stages drive the unit through its four entry points; a run is a
  list of such calls, stopped by the first that fails.
\<close>

datatype op =
    Predict StaticInst InstSeqNum PCStateBase ThreadID
  | Update InstSeqNum ThreadID
  | Squash InstSeqNum ThreadID
  | SquashMispredict InstSeqNum PCStateBase bool ThreadID

fun step :: "collab \<Rightarrow> op \<Rightarrow> BPredUnit \<Rightarrow> error + BPredUnit" where
  "step env (Predict i sn pcs t) s = bind_err (predict env i sn pcs t s) (\<lambda>(tk, p, s'). Inr s')"
| "step env (Update done_sn t) s = update env done_sn t s"
| "step env (Squash squashed_sn t) s = squash env squashed_sn t s"
| "step env (SquashMispredict squashed_sn corr_target actually_taken t) s =
     squash_mispredict env squashed_sn corr_target actually_taken t s"

fun run :: "collab \<Rightarrow> op list \<Rightarrow> BPredUnit \<Rightarrow> error + BPredUnit" where
  "run env [] s = Inr s"
| "run env (x # xs) s = (case step env x s of Inl e \<Rightarrow> Inl e | Inr s' \<Rightarrow> run env xs s')"

text \<open>The calls made since the unit was in state \<open>s\<close>.\<close>

definition new_calls :: "BPredUnit \<Rightarrow> BPredUnit \<Rightarrow> calllog" where
  "new_calls s s' = drop (length (calls s)) (calls s')"

subsection \<open>Observing the calls\<close>

fun is_probe :: "call \<Rightarrow> bool" where
  "is_probe (ppBranches_notify n) = True"
| "is_probe (ppMisses_notify n) = True"
| "is_probe _ = False"

fun is_A_btbUpdate :: "call \<Rightarrow> bool" where
  "is_A_btbUpdate (A_btbUpdate t a h) = True"
| "is_A_btbUpdate _ = False"

fun is_A_update :: "call \<Rightarrow> bool" where
  "is_A_update (A_update t a tk h sq i tg) = True"
| "is_A_update _ = False"

fun is_btb_update :: "call \<Rightarrow> bool" where
  "is_btb_update (btb_update t a p k) = True"
| "is_btb_update _ = False"

fun is_iPred_commit :: "call \<Rightarrow> bool" where
  "is_iPred_commit (iPred_commit t sn h) = True"
| "is_iPred_commit _ = False"

fun is_ras_commit :: "call \<Rightarrow> bool" where
  "is_ras_commit (ras_commit t m k h) = True"
| "is_ras_commit _ = False"

fun is_ras_call :: "call \<Rightarrow> bool" where
  "is_ras_call (ras_pop t h) = True"
| "is_ras_call (ras_push t p h) = True"
| "is_ras_call (ras_commit t m k h) = True"
| "is_ras_call (ras_squash t h) = True"
| "is_ras_call _ = False"

text \<open>The calls of the flush loop.\<close>

fun is_squash_call :: "call \<Rightarrow> bool" where
  "is_squash_call (ras_squash t h) = True"
| "is_squash_call (A_squash t h) = True"
| "is_squash_call (iPred_squash t sn h) = True"
| "is_squash_call _ = False"

text \<open>A BTB lookup, a BTB lookup that found a target; the same for the indirect predictor.\<close>

fun is_btb_lookup :: "call \<Rightarrow> bool" where
  "is_btb_lookup (btb_lookup t a k) = True"
| "is_btb_lookup _ = False"

fun is_iPred_lookup :: "call \<Rightarrow> bool" where
  "is_iPred_lookup (iPred_lookup t sn a h) = True"
| "is_iPred_lookup _ = False"

definition btb_asked :: "call \<times> ret \<Rightarrow> bool" where
  "btb_asked e = is_btb_lookup (fst e)"

definition btb_hit :: "call \<times> ret \<Rightarrow> bool" where
  "btb_hit e = (is_btb_lookup (fst e) \<and> ret_pc (snd e) \<noteq> None)"

definition iPred_asked :: "call \<times> ret \<Rightarrow> bool" where
  "iPred_asked e = is_iPred_lookup (fst e)"

definition iPred_hit :: "call \<times> ret \<Rightarrow> bool" where
  "iPred_hit e = (is_iPred_lookup (fst e) \<and> ret_pc (snd e) \<noteq> None)"

definition iPred_miss :: "call \<times> ret \<Rightarrow> bool" where
  "iPred_miss e = (is_iPred_lookup (fst e) \<and> ret_pc (snd e) = None)"

text \<open>Calls that are neither a probe nor a lookup.\<close>

definition silent :: "calllog \<Rightarrow> bool" where
  "silent ext =
     list_all (\<lambda>e. \<not> is_probe (fst e) \<and> \<not> is_btb_lookup (fst e) \<and> \<not> is_iPred_lookup (fst e)) ext"

text \<open>The calls that one turn of the commit loop makes for the record \<open>b\<close>.\<close>

definition commit_A :: "ThreadID \<Rightarrow> PredictorHistory \<Rightarrow> call" where
  "commit_A t b = A_update t (pc b) (predTaken b) (bpHistory b) False (inst b) (target b)"

definition commit_iPred :: "ThreadID \<Rightarrow> PredictorHistory \<Rightarrow> call" where
  "commit_iPred t b = iPred_commit t (seqNum b) (indirectHistory b)"

definition commit_ras :: "collab \<Rightarrow> ThreadID \<Rightarrow> PredictorHistory \<Rightarrow> call" where
  "commit_ras env t b = ras_commit t (mispredict b) (getBranchType env (inst b)) (rasHistory b)"

definition commit_calls :: "collab \<Rightarrow> ThreadID \<Rightarrow> PredictorHistory \<Rightarrow> call list" where
  "commit_calls env t b =
     commit_A t b # (if iPred_present env then [commit_iPred t b] else [])
       @ (if ras_present env then [commit_ras env t b] else [])"

text \<open>Every counter of \<open>b\<close> is at least that of \<open>a\<close>.\<close>

definition stats_le :: "BPredUnitStats \<Rightarrow> BPredUnitStats \<Rightarrow> bool" where
  "stats_le a b =
     (lookups a \<le> lookups b \<and> condPredicted a \<le> condPredicted b \<and>
      condIncorrect a \<le> condIncorrect b \<and> BTBLookups a \<le> BTBLookups b \<and>
      BTBUpdates a \<le> BTBUpdates b \<and> BTBHits a \<le> BTBHits b \<and> RASUsed a \<le> RASUsed b \<and>
      RASIncorrect a \<le> RASIncorrect b \<and> indirectLookups a \<le> indirectLookups b \<and>
      indirectHits a \<le> indirectHits b \<and> indirectMisses a \<le> indirectMisses b \<and>
      indirectMispredicted a \<le> indirectMispredicted b)"

text \<open>
  From the unit \<open>s\<close> to the unit \<open>s'\<close> calls were only added, no counter went down, and
  the lookup counters went up by the numbers of lookups, hits and misses among those calls.
\<close>

definition counted :: "BPredUnit \<Rightarrow> BPredUnit \<Rightarrow> bool" where
  "counted s s' =
     (\<exists>ext. calls s' = calls s @ ext \<and>
        BTBLookups (stats s') = BTBLookups (stats s) + length (filter btb_asked ext) \<and>
        BTBHits (stats s') = BTBHits (stats s) + length (filter btb_hit ext) \<and>
        indirectLookups (stats s') = indirectLookups (stats s) + length (filter iPred_asked ext) \<and>
        indirectHits (stats s') = indirectHits (stats s) + length (filter iPred_hit ext) \<and>
        indirectMisses (stats s') = indirectMisses (stats s) + length (filter iPred_miss ext) \<and>
        stats_le (stats s) (stats s'))"

text \<open>
  The protocol of the fetch stage: every \<open>predict\<close> on a thread passes a sequence number
  greater than all those passed for that thread before (\<open>seen\<close> holds the earlier ones).
\<close>

fun sn_increasing :: "(ThreadID \<times> InstSeqNum) list \<Rightarrow> op list \<Rightarrow> bool" where
  "sn_increasing seen [] = True"
| "sn_increasing seen (Predict i sn pcs t # xs) =
     ((\<forall>e \<in> set seen. fst e = t \<longrightarrow> snd e < sn) \<and> sn_increasing ((t, sn) # seen) xs)"
| "sn_increasing seen (x # xs) = sn_increasing seen xs"

text \<open>Property (P1) of the spec, for every queue, with every queued number a seen one.\<close>

definition queues_decreasing :: "(ThreadID \<times> InstSeqNum) list \<Rightarrow> BPredUnit \<Rightarrow> bool" where
  "queues_decreasing seen s =
     (\<forall>t < length (predHist s).
        sorted_wrt (\<lambda>a b. b < a) (map seqNum (predHist s ! t)) \<and>
        (\<forall>h \<in> set (predHist s ! t). (t, seqNum h) \<in> set seen))"

text \<open>What a caller of \<open>predict\<close> sees, with the front record of the thread's queue.\<close>

definition predict_view ::
  "ThreadID \<Rightarrow> error + (bool \<times> PCStateBase \<times> BPredUnit)
     \<Rightarrow> error + (bool \<times> PCStateBase \<times> (bool \<times> Addr \<times> bool \<times> token) \<times> (call \<times> PCStateBase option) list)"
where
  "predict_view t res =
     (case res of
        Inl e \<Rightarrow> Inl e
      | Inr (tk, p, s) \<Rightarrow>
          Inr (tk, p,
               (case hd (predHist s ! t) of rc \<Rightarrow>
                  (predTaken rc, target rc, pushedRAS rc, rasHistory rc)),
               map (\<lambda>e. (fst e, ret_pc (snd e))) (calls s)))"

subsection \<open>Concrete instructions, collaborators and units\<close>

text \<open>Lines 58 to 68: the constructor makes one empty queue for each thread.\<close>

definition BPredUnit_init :: "nat \<Rightarrow> BPredUnit" where
  "BPredUnit_init numThreads =
     \<lparr> predHist = replicate numThreads [],
       stats = \<lparr> lookups = 0, condPredicted = 0, condIncorrect = 0, BTBLookups = 0,
                 BTBUpdates = 0, BTBHits = 0, RASUsed = 0, RASIncorrect = 0,
                 indirectLookups = 0, indirectHits = 0, indirectMisses = 0,
                 indirectMispredicted = 0 \<rparr>,
       calls = [] \<rparr>"

text \<open>An architecture with instructions of four bytes.\<close>

definition advance4 :: "PCStateBase \<Rightarrow> PCStateBase" where
  "advance4 p = PCState (instAddr p + 4) (archRest p)"

definition ex_inst :: "bool \<Rightarrow> bool \<Rightarrow> bool \<Rightarrow> bool \<Rightarrow> StaticInst" where
  "ex_inst uncond ret call direct =
     \<lparr> isUncondCtrl = uncond, isReturn = ret, isCall = call, isDirectCtrl = direct,
       advancePC = advance4, buildRetPC = (\<lambda>p q. advance4 p) \<rparr>"

text \<open>
  Collaborators that always answer the same: the direction \<open>tk\<close>, the BTB target \<open>bt\<close>,
  the indirect target \<open>it\<close>, the popped return address \<open>rt\<close>; the token left in a history
  argument is the number of calls made before.
\<close>

definition ex_respond ::
  "bool \<Rightarrow> PCStateBase option \<Rightarrow> PCStateBase option \<Rightarrow> PCStateBase option \<Rightarrow> calllog \<Rightarrow> call \<Rightarrow> ret"
where
  "ex_respond tk bt it rt lg c =
     \<lparr> ret_taken = tk,
       ret_pc = (case c of btb_lookup t a k \<Rightarrow> bt | iPred_lookup t sn a h \<Rightarrow> it
                 | ras_pop t h \<Rightarrow> rt | _ \<Rightarrow> None),
       ret_hist = Some (length lg) \<rparr>"

definition ex_collab ::
  "bool \<Rightarrow> bool \<Rightarrow> bool \<Rightarrow> PCStateBase option \<Rightarrow> PCStateBase option \<Rightarrow> PCStateBase option \<Rightarrow> collab"
where
  "ex_collab ip rs tk bt it rt =
     \<lparr> iPred_present = ip, ras_present = rs, respond = ex_respond tk bt it rt,
       getBranchType = (\<lambda>i. if isReturn i then 1 else if isCall i then 2 else 3) \<rparr>"

text \<open>
  A unit of one thread after two unconditional direct jumps, numbered 10 and 12, were
  predicted with a BTB that knows the target \<open>0x2000\<close>.
\<close>

definition ex_hit :: collab where
  "ex_hit = ex_collab True True True (Some (PCState 0x2000 0)) None None"

definition ex_jump :: StaticInst where
  "ex_jump = ex_inst True False False True"

definition ex_two_ops :: "op list" where
  "ex_two_ops = [Predict ex_jump 10 (PCState 0x1000 0) 0, Predict ex_jump 12 (PCState 0x2000 0) 0]"

definition ex_two_jumps :: BPredUnit where
  "ex_two_jumps =
     (case run ex_hit ex_two_ops (BPredUnit_init 1) of Inr s \<Rightarrow> s | Inl e \<Rightarrow> BPredUnit_init 1)"

section \<open>Basic facts\<close>

declare update_loop.simps [simp del] squash_loop.simps [simp del]

lemma invoke_simps [simp]:
  "predHist (snd (invoke env c s)) = predHist s"
  "stats (snd (invoke env c s)) = stats s"
  "calls (snd (invoke env c s)) = calls s @ [(c, respond env (calls s) c)]"
  "fst (invoke env c s) = respond env (calls s) c"
  by (simp_all add: invoke_def Let_def)

lemma bump_simps [simp]:
  "predHist (bump f s) = predHist s"
  "stats (bump f s) = f (stats s)"
  "calls (bump f s) = calls s"
  by (simp_all add: bump_def)

lemmas predict_defs = predict_def predict_direction_def predict_target_def predict_return_def
  predict_call_def predict_btb_def predict_indirect_def predict_finish_def bind_err_def
  invoke_def bump_def mkPredictorHistory_def

lemmas ex_defs = ex_collab_def ex_respond_def ex_inst_def advance4_def BPredUnit_init_def

text \<open>\<open>predict\<close> puts one record, with the sequence number it was given, at the front.\<close>

lemma predict_queue:
  assumes "predict env i sn pcs t s = Inr (tk, p, s')"
  shows "t < length (predHist s) \<and>
         (\<exists>rc. predHist s' = (predHist s)[t := rc # predHist s ! t] \<and> seqNum rc = sn)"
  using assms
  by (auto simp: predict_defs Let_def split: if_splits option.splits prod.splits)

section \<open>Prediction\<close>

text \<open>
  Claim C1. When \<open>predict\<close> returns and one of the calls it made is a BTB lookup that gave
  no target, then: the direction was taken (the branch is unconditional, or \<^verbatim>\<open>lookup\<close>
  said taken), the branch is no return and is direct or there is no indirect predictor;
  the value returned and \<open>predTaken\<close> of the new record are false; the PC handed back and
  the target of the record are the PC advanced past the branch; \<^verbatim>\<open>btbUpdate\<close> is called
  once when the instruction is neither a call nor a return and not at all otherwise; and
  for a conditional call the RAS is asked to squash the token that the push left in
  \<open>rasHistory\<close>.
\<close>

theorem predict_btb_miss:
  assumes "predict env i sn pcs t s = Inr (tk, p, s')"
      and "(btb_lookup t a k, r) \<in> set (new_calls s s')" and "ret_pc r = None"
  shows "\<not> tk \<and> p = advancePC i pcs \<and>
     (\<exists>rc. predHist s' ! t = rc # predHist s ! t \<and> \<not> predTaken rc \<and>
        target rc = instAddr (advancePC i pcs) \<and>
        (isCall i \<and> \<not> isUncondCtrl i \<longrightarrow>
           (\<exists>tin r1 r2. (ras_push t (buildRetPC i pcs pcs) tin, r1) \<in> set (new_calls s s') \<and>
              (ras_squash t (ret_hist r1), r2) \<in> set (new_calls s s') \<and>
              rasHistory rc = ret_hist r2))) \<and>
     length (filter is_A_btbUpdate (map fst (new_calls s s'))) =
       (if \<not> isCall i \<and> \<not> isReturn i then 1 else 0) \<and>
     (\<not> isCall i \<and> \<not> isReturn i \<longrightarrow>
        (\<exists>q. (A_btbUpdate t (instAddr pcs) (bpHistory (hd (predHist s' ! t))), q)
                \<in> set (new_calls s s'))) \<and>
     \<not> isReturn i \<and> (isDirectCtrl i \<or> \<not> iPred_present env) \<and>
     (isUncondCtrl i \<or> (\<exists>q. (A_lookup t (instAddr pcs) None, q) \<in> set (new_calls s s') \<and>
                              ret_taken q))"
  using assms
  by (auto simp: predict_defs new_calls_def Let_def split: if_splits option.splits prod.splits)

theorem predict_btb_miss_witness:
  "\<exists>tk p s' r.
     predict (ex_collab True True True None None None) (ex_inst False False True True) 10
       (PCState 0x1000 0) 0 (BPredUnit_init 1) = Inr (tk, p, s') \<and>
     (btb_lookup 0 0x1000 2, r) \<in> set (new_calls (BPredUnit_init 1) s') \<and> ret_pc r = None \<and>
     \<not> tk \<and> p = PCState 0x1004 0 \<and>
     length (filter is_A_btbUpdate (map fst (new_calls (BPredUnit_init 1) s'))) = 0"
proof -
  let ?E = "ex_collab True True True None None None"
  let ?I = "ex_inst False False True True"
  let ?S = "BPredUnit_init 1"
  let ?r = "\<lparr>ret_taken = True, ret_pc = None, ret_hist = Some 3\<rparr>"
  have "\<exists>tk p s'. predict ?E ?I 10 (PCState 0x1000 0) 0 ?S = Inr (tk, p, s')"
    by (simp add: predict_defs ex_defs Let_def) blast
  then obtain tk p s' where e: "predict ?E ?I 10 (PCState 0x1000 0) 0 ?S = Inr (tk, p, s')"
    by blast
  have m: "(btb_lookup 0 0x1000 2, ?r) \<in> set (new_calls ?S s')"
    using e by (simp add: predict_defs ex_defs new_calls_def Let_def) auto
  have n: "ret_pc ?r = None" by simp
  have a: "advancePC ?I (PCState 0x1000 0) = PCState 0x1004 0" by (simp add: ex_defs)
  have c: "isCall ?I" by (simp add: ex_defs)
  note r = predict_btb_miss[OF e m n]
  have 1: "\<not> tk" using r[THEN conjunct1] .
  have 2: "p = PCState 0x1004 0" using r[THEN conjunct2, THEN conjunct1] a by simp
  have 3: "length (filter is_A_btbUpdate (map fst (new_calls ?S s'))) = 0"
    using r[THEN conjunct2, THEN conjunct2, THEN conjunct2, THEN conjunct1] c by simp
  show ?thesis using e m n 1 2 3 by blast
qed

section \<open>The two loops\<close>

lemma commit_record_simps:
  "predHist (commit_record env t b s) = predHist s"
  "stats (commit_record env t b s) = stats s"
  "\<exists>ext. calls (commit_record env t b s) = calls s @ ext \<and> map fst ext = commit_calls env t b"
  by (simp_all add: commit_record_def commit_calls_def commit_A_def commit_iPred_def commit_ras_def Let_def)

lemma squash_record_simps:
  "predHist (squash_record env t f s) = predHist s"
  "stats (squash_record env t f s) = stats s"
  "\<exists>ext. calls (squash_record env t f s) = calls s @ ext \<and> list_all is_squash_call (map fst ext) \<and>
         (rasHistory f = None \<longrightarrow> filter is_ras_call (map fst ext) = [])"
  by (simp_all add: squash_record_def Let_def)

lemma squash_loop_char:
  "squash_loop env sn t s = Inr s' \<Longrightarrow> t < length (predHist s) \<Longrightarrow>
     predHist s' = (predHist s)[t := dropWhile (\<lambda>h. sn < seqNum h) (predHist s ! t)] \<and>
     stats s' = stats s \<and>
     (\<exists>ext. calls s' = calls s @ ext \<and> list_all is_squash_call (map fst ext) \<and>
            (\<not> ras_present env \<longrightarrow> filter is_ras_call (map fst ext) = []))"
proof (induction env sn t s rule: squash_loop.induct)
  case (1 env sn t s)
  let ?h = "predHist s ! t"
  show ?case
  proof (cases "?h \<noteq> [] \<and> sn < seqNum (hd ?h)")
    case False
    have "squash_loop env sn t s = Inr s"
      using False by (subst squash_loop.simps) auto
    then have "s' = s" using "1.prems" by simp
    moreover have "dropWhile (\<lambda>h. sn < seqNum h) ?h = ?h"
      using False by (cases ?h) auto
    ultimately show ?thesis by simp
  next
    case True
    define f where "f = hd ?h"
    define s3 where "s3 = squash_record env t f s"
    define s1 where "s1 = s3\<lparr>predHist := (predHist s3)[t := tl (predHist s3 ! t)]\<rparr>"
    have g: "t < length (predHist s) \<and> ?h \<noteq> [] \<and> sn < seqNum (hd ?h)"
      using True "1.prems" by simp
    have na: "\<not> (rasHistory f \<noteq> None \<and> \<not> ras_present env)"
      using "1.prems"(1) g
      by (subst (asm) squash_loop.simps) (auto simp: f_def Let_def split: if_splits)
    have u: "squash_loop env sn t s = squash_loop env sn t s1"
      using g na by (subst squash_loop.simps) (auto simp: Let_def s1_def s3_def f_def)
    have ph: "predHist s1 = (predHist s)[t := tl ?h]" "stats s1 = stats s"
      using g by (simp_all add: s1_def s3_def squash_record_simps)
    have t1: "t < length (predHist s1)" using g ph by simp
    have r1: "squash_loop env sn t s1 = Inr s'" using u "1.prems"(1) by simp
    have ih: "predHist s' = (predHist s1)[t := dropWhile (\<lambda>h. sn < seqNum h) (predHist s1 ! t)] \<and>
      stats s' = stats s1 \<and>
      (\<exists>ext. calls s' = calls s1 @ ext \<and> list_all is_squash_call (map fst ext) \<and>
             (\<not> ras_present env \<longrightarrow> filter is_ras_call (map fst ext) = []))"
      using "1.IH"[OF g f_def na s3_def] r1 t1 by (simp add: s1_def)
    obtain e1 where e1: "calls s1 = calls s @ e1" "list_all is_squash_call (map fst e1)"
        "rasHistory f = None \<longrightarrow> filter is_ras_call (map fst e1) = []"
      using squash_record_simps(3)[of env t f s] by (auto simp: s1_def s3_def)
    from ih obtain e2 where e2: "calls s' = calls s1 @ e2" "list_all is_squash_call (map fst e2)"
        "\<not> ras_present env \<longrightarrow> filter is_ras_call (map fst e2) = []"
      by blast
    have c: "\<exists>ext. calls s' = calls s @ ext \<and> list_all is_squash_call (map fst ext) \<and>
            (\<not> ras_present env \<longrightarrow> filter is_ras_call (map fst ext) = [])"
      using e1 e2 na by (intro exI[of _ "e1 @ e2"]) auto
    have hh: "?h = f # tl ?h" using g by (simp add: f_def)
    have "dropWhile (\<lambda>h. sn < seqNum h) ?h = dropWhile (\<lambda>h. sn < seqNum h) (tl ?h)"
      using g by (cases ?h) auto
    then have "predHist s' = (predHist s)[t := dropWhile (\<lambda>h. sn < seqNum h) ?h]"
      using ih g by (simp add: ph)
    moreover have "stats s' = stats s" using ih ph by simp
    ultimately show ?thesis using c by blast
  qed
qed

text \<open>
  The commit loop removes from the back the records numbered up to \<open>d\<close>, and makes
  the calls of \<open>commit_calls\<close> for each of them, the oldest first.
\<close>

lemma update_loop_char:
  "t < length (predHist s) \<Longrightarrow> predHist (update_loop env d t s) =
     (predHist s)[t := rev (dropWhile (\<lambda>b. seqNum b \<le> d) (rev (predHist s ! t)))] \<and>
   stats (update_loop env d t s) = stats s \<and>
   (\<exists>ext. calls (update_loop env d t s) = calls s @ ext \<and>
      map fst ext = concat (map (commit_calls env t)
                       (takeWhile (\<lambda>b. seqNum b \<le> d) (rev (predHist s ! t)))))"
proof (induction env d t s rule: update_loop.induct)
  case (1 env d t s)
  let ?h = "predHist s ! t"
  show ?case
  proof (cases "t < length (predHist s) \<and> ?h \<noteq> [] \<and> seqNum (last ?h) \<le> d")
    case False
    have u: "update_loop env d t s = s"
      using False by (subst update_loop.simps) auto
    from False "1.prems" have "?h = [] \<or> \<not> seqNum (last ?h) \<le> d" by blast
    then have "dropWhile (\<lambda>b. seqNum b \<le> d) (rev ?h) = rev ?h \<and>
               takeWhile (\<lambda>b. seqNum b \<le> d) (rev ?h) = []"
      by (cases ?h rule: rev_cases) auto
    then show ?thesis by (simp add: u)
  next
    case True
    define b where "b = last ?h"
    define s3 where "s3 = commit_record env t b s"
    define s' where "s' = s3\<lparr>predHist := (predHist s3)[t := butlast (predHist s3 ! t)]\<rparr>"
    have u: "update_loop env d t s = update_loop env d t s'"
      using True by (subst update_loop.simps) (simp add: Let_def s'_def s3_def b_def)
    have ih: "predHist (update_loop env d t s') =
        (predHist s')[t := rev (dropWhile (\<lambda>b. seqNum b \<le> d) (rev (predHist s' ! t)))] \<and>
      stats (update_loop env d t s') = stats s' \<and>
      (\<exists>ext. calls (update_loop env d t s') = calls s' @ ext \<and>
        map fst ext = concat (map (commit_calls env t)
                       (takeWhile (\<lambda>b. seqNum b \<le> d) (rev (predHist s' ! t)))))"
      using "1.IH"[OF True, of s3] "1.prems"
      by (simp add: s'_def s3_def b_def commit_record_simps)
    have h: "rev ?h = b # rev (butlast ?h)"
      using True by (cases ?h rule: rev_cases) (auto simp: b_def)
    have ph: "predHist s' = (predHist s)[t := butlast ?h]" "stats s' = stats s"
      by (simp_all add: s'_def s3_def commit_record_simps)
    obtain e1 where e1: "calls s' = calls s @ e1" "map fst e1 = commit_calls env t b"
      using commit_record_simps(3)[of env t b s] by (auto simp: s'_def s3_def)
    from ih obtain e2 where e2: "calls (update_loop env d t s') = calls s' @ e2"
       "map fst e2 = concat (map (commit_calls env t)
                       (takeWhile (\<lambda>b. seqNum b \<le> d) (rev (predHist s' ! t))))" by blast
    have pb: "seqNum b \<le> d" using True by (simp add: b_def)
    have "calls (update_loop env d t s) = calls s @ (e1 @ e2)" using e1 e2 u by simp
    moreover have "map fst (e1 @ e2) = concat (map (commit_calls env t)
                       (takeWhile (\<lambda>b. seqNum b \<le> d) (rev ?h)))"
      using e1 e2 True pb by (simp add: h ph)
    ultimately have c: "\<exists>ext. calls (update_loop env d t s) = calls s @ ext \<and>
      map fst ext = concat (map (commit_calls env t)
                       (takeWhile (\<lambda>b. seqNum b \<le> d) (rev ?h)))" by blast
    have "predHist (update_loop env d t s) =
       (predHist s)[t := rev (dropWhile (\<lambda>b. seqNum b \<le> d) (rev ?h))]"
      using ih True pb by (simp add: u h ph)
    moreover have "stats (update_loop env d t s) = stats s" using ih by (simp add: u ph)
    ultimately show ?thesis using c by blast
  qed
qed

lemma run_predicts_queue:
  "run env (map (\<lambda>(i, sn, pcs). Predict i sn pcs t) ps) s = Inr s' \<Longrightarrow>
   t < length (predHist s) \<Longrightarrow>
     length (predHist s') = length (predHist s) \<and>
     map seqNum (predHist s' ! t) = rev (map (\<lambda>(i, sn, pcs). sn) ps) @ map seqNum (predHist s ! t)"
proof (induction ps arbitrary: s)
  case Nil
  then show ?case by simp
next
  case (Cons x ps)
  obtain i sn pcs where x: "x = (i, sn, pcs)" by (cases x) auto
  from Cons.prems(1) obtain tk p s1 where
    p1: "predict env i sn pcs t s = Inr (tk, p, s1)" and
    r1: "run env (map (\<lambda>(i, sn, pcs). Predict i sn pcs t) ps) s1 = Inr s'"
    by (auto simp: x bind_err_def split: sum.splits)
  from predict_queue[OF p1] obtain rc where
    q: "predHist s1 = (predHist s)[t := rc # predHist s ! t]" "seqNum rc = sn" by blast
  have "t < length (predHist s1)" using Cons.prems(2) q by simp
  from Cons.IH[OF r1 this] show ?case using q Cons.prems(2) by (simp add: x)
qed

lemma filter_commit_calls:
  "filter is_A_update (concat (map (commit_calls env t) xs)) = map (commit_A t) xs"
  "filter is_iPred_commit (concat (map (commit_calls env t) xs)) =
     (if iPred_present env then map (commit_iPred t) xs else [])"
  "filter is_ras_commit (concat (map (commit_calls env t) xs)) =
     (if ras_present env then map (commit_ras env t) xs else [])"
  by (induction xs) (auto simp: commit_calls_def commit_A_def commit_iPred_def commit_ras_def)

section \<open>Commit\<close>

text \<open>
  Claim C6 (law L2 of the spec). Let the queue of thread \<open>t\<close> be empty, let the \<open>predict\<close>
  calls for the list \<open>ps\<close> of (instruction, sequence number, PC) all return, and let
  \<open>last_sn\<close> be at least every sequence number of \<open>ps\<close> (so also when the numbers increase
  and \<open>last_sn\<close> is at least the largest). Then \<open>update last_sn\<close> returns and leaves
  the queue of \<open>t\<close> empty; the queue held one record for each element of \<open>ps\<close>, in the
  order of \<open>ps\<close> from the back; the \<^verbatim>\<open>update\<close> calls to the direction predictor are
  exactly one for each record, the oldest first, each with \<open>squashed = false\<close> (see
  \<open>commit_A\<close>), so there are as many as elements of \<open>ps\<close>; and the \<^verbatim>\<open>commit\<close> calls to the
  indirect predictor and to the RAS are one for each record when that collaborator is
  present and none when it is absent.
\<close>

theorem predicts_then_update_drains:
  assumes "run env (map (\<lambda>(i, sn, pcs). Predict i sn pcs t) ps) s0 = Inr s1"
      and "t < length (predHist s0)" and "predHist s0 ! t = []"
      and "\<forall>x \<in> set ps. fst (snd x) \<le> last_sn"
  shows "\<exists>s2. update env last_sn t s1 = Inr s2 \<and> predHist s2 ! t = [] \<and>
           map seqNum (rev (predHist s1 ! t)) = map (\<lambda>x. fst (snd x)) ps \<and>
           filter is_A_update (map fst (new_calls s1 s2)) =
             map (commit_A t) (rev (predHist s1 ! t)) \<and>
           length (filter is_A_update (map fst (new_calls s1 s2))) = length ps \<and>
           filter is_iPred_commit (map fst (new_calls s1 s2)) =
             (if iPred_present env then map (commit_iPred t) (rev (predHist s1 ! t)) else []) \<and>
           filter is_ras_commit (map fst (new_calls s1 s2)) =
             (if ras_present env then map (commit_ras env t) (rev (predHist s1 ! t)) else [])"
proof -
  let ?h = "predHist s1 ! t"
  have q: "length (predHist s1) = length (predHist s0)"
          "map seqNum ?h = rev (map (\<lambda>(i, sn, pcs). sn) ps)"
    using run_predicts_queue[OF assms(1,2)] assms(3) by simp_all
  have sn: "map seqNum (rev ?h) = map (\<lambda>x. fst (snd x)) ps"
    using q(2) by (simp add: rev_map[symmetric] case_prod_beta)
  have "set (map seqNum (rev ?h)) = (\<lambda>x. fst (snd x)) ` set ps" unfolding sn by simp
  then have "seqNum ` set ?h \<subseteq> (\<lambda>x. fst (snd x)) ` set ps" by simp
  then have all: "\<forall>b \<in> set (rev ?h). seqNum b \<le> last_sn" using assms(4) by fastforce
  have tw: "takeWhile (\<lambda>b. seqNum b \<le> last_sn) (rev ?h) = rev ?h"
           "dropWhile (\<lambda>b. seqNum b \<le> last_sn) (rev ?h) = []"
    using all by (simp_all add: takeWhile_eq_all_conv)
  have t1: "t < length (predHist s1)" using q assms(2) by simp
  define s2 where "s2 = update_loop env last_sn t s1"
  from update_loop_char[OF t1, of env last_sn] obtain ext where
    u: "predHist s2 = (predHist s1)[t := []]" "calls s2 = calls s1 @ ext"
       "map fst ext = concat (map (commit_calls env t) (rev ?h))"
    unfolding s2_def tw by auto
  have nc: "map fst (new_calls s1 s2) = concat (map (commit_calls env t) (rev ?h))"
    using u by (simp add: new_calls_def)
  have len: "length ?h = length ps" using arg_cong[OF sn, of length] by simp
  have f1: "filter is_A_update (map fst (new_calls s1 s2)) = map (commit_A t) (rev ?h)"
    unfolding nc by (rule filter_commit_calls)
  have f2: "length (filter is_A_update (map fst (new_calls s1 s2))) = length ps"
    unfolding f1 using len by simp
  have f3: "filter is_iPred_commit (map fst (new_calls s1 s2)) =
             (if iPred_present env then map (commit_iPred t) (rev ?h) else [])"
    unfolding nc by (rule filter_commit_calls)
  have f4: "filter is_ras_commit (map fst (new_calls s1 s2)) =
             (if ras_present env then map (commit_ras env t) (rev ?h) else [])"
    unfolding nc by (rule filter_commit_calls)
  have "update env last_sn t s1 = Inr s2" using t1 by (simp add: update_def s2_def)
  moreover have "predHist s2 ! t = []" using u t1 by simp
  ultimately show ?thesis using sn f1 f2 f3 f4 by blast
qed

theorem predicts_then_update_drains_witness:
  "\<exists>s1 s2.
     run (ex_collab True True True (Some (PCState 0x2000 0)) None None)
       (map (\<lambda>(i, sn, pcs). Predict i sn pcs 0)
          [(ex_inst True False False True, 10, PCState 0x1000 0),
           (ex_inst True False False True, 11, PCState 0x2000 0)])
       (BPredUnit_init 1) = Inr s1 \<and>
     update (ex_collab True True True (Some (PCState 0x2000 0)) None None) 11 0 s1 = Inr s2 \<and>
     predHist s2 ! 0 = [] \<and>
     map seqNum (rev (predHist s1 ! 0)) = [10, 11] \<and>
     length (filter is_A_update (map fst (new_calls s1 s2))) = 2"
proof -
  let ?E = "ex_collab True True True (Some (PCState 0x2000 0)) None None"
  let ?ps = "[(ex_inst True False False True, 10 :: InstSeqNum, PCState 0x1000 0),
              (ex_inst True False False True, 11 :: InstSeqNum, PCState 0x2000 0)]"
  let ?S = "BPredUnit_init 1"
  let ?R = "run ?E (map (\<lambda>(i, sn, pcs). Predict i sn pcs 0) ?ps) ?S"
  have "case ?R of Inr s \<Rightarrow> True | Inl e \<Rightarrow> False"
    by code_simp
  then obtain s1 where r: "?R = Inr s1"
    by (cases ?R) auto
  have t: "0 < length (predHist ?S)" and e: "predHist ?S ! 0 = []"
    by (simp_all add: ex_defs)
  have b: "\<forall>x \<in> set ?ps. fst (snd x) \<le> (11 :: InstSeqNum)" by simp
  from predicts_then_update_drains[OF r t e b] obtain s2 where
    u: "update ?E 11 0 s1 = Inr s2" "predHist s2 ! 0 = []"
       "map seqNum (rev (predHist s1 ! 0)) = map (\<lambda>x. fst (snd x)) ?ps"
       "length (filter is_A_update (map fst (new_calls s1 s2))) = length ?ps"
    by blast
  have "map seqNum (rev (predHist s1 ! 0)) = [10, 11]" using u(3) by simp
  moreover have "length (filter is_A_update (map fst (new_calls s1 s2))) = 2"
    using u(4) by simp
  ultimately show ?thesis using r u(1,2)
    by - (rule exI[of _ s1], rule exI[of _ s2], (intro conjI; assumption))
qed

section \<open>The boundary record of a misprediction\<close>

lemma silent_simps [simp]:
  "silent []"
  "silent (a @ b) = (silent a \<and> silent b)"
  "silent (e # ext) =
     (\<not> is_probe (fst e) \<and> \<not> is_btb_lookup (fst e) \<and> \<not> is_iPred_lookup (fst e) \<and> silent ext)"
  by (auto simp: silent_def)

lemma silent_filters:
  assumes "silent ext"
  shows "filter btb_asked ext = []" "filter btb_hit ext = []" "filter iPred_asked ext = []"
        "filter iPred_hit ext = []" "filter iPred_miss ext = []"
        "filter is_probe (map fst ext) = []"
  using assms
  by (auto simp: silent_def list_all_iff filter_empty_conv btb_asked_def btb_hit_def
        iPred_asked_def iPred_hit_def iPred_miss_def)

lemma squash_calls_silent:
  "list_all is_squash_call (map fst ext) \<Longrightarrow> silent ext \<and> filter is_btb_update (map fst ext) = []"
proof (induction ext)
  case Nil
  then show ?case by simp
next
  case (Cons e ext)
  then show ?case by (cases "fst e") (auto simp: silent_def)
qed

lemma ras_calls_silent:
  "list_all is_ras_call (map fst ext) \<Longrightarrow> silent ext \<and> filter is_btb_update (map fst ext) = []"
proof (induction ext)
  case Nil
  then show ?case by simp
next
  case (Cons e ext)
  then show ?case by (cases "fst e") (auto simp: silent_def)
qed

lemma commit_calls_silent:
  "map fst ext = concat (map (commit_calls env t) xs) \<Longrightarrow> silent ext"
proof -
  assume a: "map fst ext = concat (map (commit_calls env t) xs)"
  have "\<forall>c \<in> set (concat (map (commit_calls env t) xs)).
          \<not> is_probe c \<and> \<not> is_btb_lookup c \<and> \<not> is_iPred_lookup c"
    by (auto simp: commit_calls_def commit_A_def commit_iPred_def commit_ras_def split: if_splits)
  then have "\<forall>c \<in> set (map fst ext). \<not> is_probe c \<and> \<not> is_btb_lookup c \<and> \<not> is_iPred_lookup c"
    using a by simp
  then show ?thesis by (simp add: silent_def list_all_iff)
qed

lemma squash_ras_simps:
  "predHist (snd (squash_ras env corr taken t hs)) = predHist (snd hs)"
  "stats (snd (squash_ras env corr taken t hs)) = stats (snd hs)"
  "seqNum (fst (squash_ras env corr taken t hs)) = seqNum (fst hs)"
  "pc (fst (squash_ras env corr taken t hs)) = pc (fst hs)"
  "inst (fst (squash_ras env corr taken t hs)) = inst (fst hs)"
  "wasIndirect (fst (squash_ras env corr taken t hs)) = wasIndirect (fst hs)"
  "predTaken (fst (squash_ras env corr taken t hs)) = predTaken (fst hs)"
  "target (fst (squash_ras env corr taken t hs)) = target (fst hs)"
  "mispredict (fst (squash_ras env corr taken t hs)) = mispredict (fst hs)"
  by (cases hs; simp add: squash_ras_def invoke_def Let_def)+

lemma squash_ras_calls:
  "\<exists>ext. calls (snd (squash_ras env corr taken t hs)) = calls (snd hs) @ ext \<and>
         list_all is_ras_call (map fst ext) \<and> (\<not> ras_present env \<longrightarrow> ext = [])"
  by (cases hs) (simp add: squash_ras_def invoke_def Let_def)

lemma squash_btb_simps:
  "predHist (snd (squash_btb env corr taken t hs)) = predHist (snd hs)"
  "fst (squash_btb env corr taken t hs) = fst hs"
  "stats (snd (squash_btb env corr taken t hs)) =
     (if taken then (if wasIndirect (fst hs) then indirectMispredicted_update Suc (stats (snd hs))
                     else BTBUpdates_update Suc (stats (snd hs))) else stats (snd hs))"
  "calls (snd (squash_btb env corr taken t hs)) =
     calls (snd hs) @ (if taken \<and> \<not> wasIndirect (fst hs)
                then [(btb_update t (pc (fst hs)) corr (getBranchType env (inst (fst hs))),
                       respond env (calls (snd hs))
                         (btb_update t (pc (fst hs)) corr (getBranchType env (inst (fst hs)))))]
                else [])"
  by (cases hs; simp add: squash_btb_def Let_def)+

lemma squash_direction_simps:
  "predHist (snd (squash_direction env sn corr taken t hs)) = predHist (snd hs)"
  "stats (snd (squash_direction env sn corr taken t hs)) =
     (if rasHistory (fst hs) \<noteq> None then RASIncorrect_update Suc (stats (snd hs)) else stats (snd hs))"
  "seqNum (fst (squash_direction env sn corr taken t hs)) = seqNum (fst hs)"
  "pc (fst (squash_direction env sn corr taken t hs)) = pc (fst hs)"
  "inst (fst (squash_direction env sn corr taken t hs)) = inst (fst hs)"
  "wasIndirect (fst (squash_direction env sn corr taken t hs)) = wasIndirect (fst hs)"
  "predTaken (fst (squash_direction env sn corr taken t hs)) = taken"
  "target (fst (squash_direction env sn corr taken t hs)) = instAddr corr"
  "mispredict (fst (squash_direction env sn corr taken t hs)) = True"
  by (cases hs; simp add: squash_direction_def invoke_def Let_def)+

lemma squash_direction_calls:
  "\<exists>ext. calls (snd (squash_direction env sn corr taken t hs)) = calls (snd hs) @ ext \<and>
         silent ext \<and> filter is_btb_update (map fst ext) = [] \<and>
         filter is_ras_call (map fst ext) = []"
  by (cases hs) (simp add: squash_direction_def invoke_def Let_def)

lemma squash_fix_simps:
  "predHist (snd (squash_fix env sn corr taken t hs)) = predHist (snd hs)"
  "seqNum (fst (squash_fix env sn corr taken t hs)) = seqNum (fst hs)"
  "pc (fst (squash_fix env sn corr taken t hs)) = pc (fst hs)"
  "inst (fst (squash_fix env sn corr taken t hs)) = inst (fst hs)"
  "wasIndirect (fst (squash_fix env sn corr taken t hs)) = wasIndirect (fst hs)"
  "predTaken (fst (squash_fix env sn corr taken t hs)) = taken"
  "target (fst (squash_fix env sn corr taken t hs)) = instAddr corr"
  "mispredict (fst (squash_fix env sn corr taken t hs)) = True"
  by (simp_all add: squash_fix_def squash_btb_simps squash_ras_simps squash_direction_simps)

lemma squash_fix_stats:
  "stats (snd (squash_fix env sn corr taken t hs)) =
     (let st = (if rasHistory (fst hs) \<noteq> None then RASIncorrect_update Suc (stats (snd hs))
                else stats (snd hs))
      in if taken then (if wasIndirect (fst hs) then indirectMispredicted_update Suc st
                        else BTBUpdates_update Suc st)
         else st)"
  by (simp add: squash_fix_def squash_btb_simps squash_ras_simps squash_direction_simps Let_def)

lemma squash_fix_calls:
  "\<exists>ext. calls (snd (squash_fix env sn corr taken t hs)) = calls (snd hs) @ ext \<and> silent ext \<and>
         filter is_btb_update (map fst ext) =
           (if taken \<and> \<not> wasIndirect (fst hs)
            then [btb_update t (pc (fst hs)) corr (getBranchType env (inst (fst hs)))] else []) \<and>
         (\<not> ras_present env \<longrightarrow> filter is_ras_call (map fst ext) = [])"
proof -
  let ?d = "squash_direction env sn corr taken t hs"
  let ?r = "squash_ras env corr taken t ?d"
  obtain e1 where e1: "calls (snd ?d) = calls (snd hs) @ e1" "silent e1"
     "filter is_btb_update (map fst e1) = []" "filter is_ras_call (map fst e1) = []"
    using squash_direction_calls by blast
  obtain e2 where e2: "calls (snd ?r) = calls (snd ?d) @ e2" "list_all is_ras_call (map fst e2)"
     "\<not> ras_present env \<longrightarrow> e2 = []"
    using squash_ras_calls by blast
  note s2 = ras_calls_silent[OF e2(2)]
  let ?e3 = "(if taken \<and> \<not> wasIndirect (fst hs)
                then [(btb_update t (pc (fst hs)) corr (getBranchType env (inst (fst hs))),
                       respond env (calls (snd ?r))
                         (btb_update t (pc (fst hs)) corr (getBranchType env (inst (fst hs)))))]
                else [])"
  have c: "calls (snd (squash_fix env sn corr taken t hs)) = calls (snd hs) @ (e1 @ e2 @ ?e3)"
    by (simp add: squash_fix_def squash_btb_simps squash_ras_simps squash_direction_simps e1 e2)
  have "silent (e1 @ e2 @ ?e3)" using e1 s2 by simp
  moreover have "filter is_btb_update (map fst (e1 @ e2 @ ?e3)) =
           (if taken \<and> \<not> wasIndirect (fst hs)
            then [btb_update t (pc (fst hs)) corr (getBranchType env (inst (fst hs)))] else [])"
    using e1 s2 by simp
  moreover have "\<not> ras_present env \<longrightarrow> filter is_ras_call (map fst (e1 @ e2 @ ?e3)) = []"
    using e1 e2 by simp
  ultimately show ?thesis using c by blast
qed

section \<open>Misprediction squash\<close>

lemma squash_entry_simps [simp]:
  "predHist (squash_entry env s) = predHist s"
  "stats (squash_entry env s) = condIncorrect_update Suc (stats s)"
  "calls (squash_entry env s) = calls s @ [(ppMisses_notify 1, respond env (calls s) (ppMisses_notify 1))]"
  by (simp_all add: squash_entry_def)

lemma squash_char:
  assumes "squash env sn t s = Inr s'"
  shows "t < length (predHist s) \<and>
     predHist s' = (predHist s)[t := dropWhile (\<lambda>h. sn < seqNum h) (predHist s ! t)] \<and>
     stats s' = stats s \<and>
     (\<exists>ext. calls s' = calls s @ ext \<and> list_all is_squash_call (map fst ext) \<and>
            (\<not> ras_present env \<longrightarrow> filter is_ras_call (map fst ext) = []))"
proof -
  have t: "t < length (predHist s)" using assms by (auto simp: squash_def split: if_splits)
  then have "squash_loop env sn t s = Inr s'" using assms by (simp add: squash_def)
  from squash_loop_char[OF this t] t show ?thesis by blast
qed

lemma squash_mispredict_unfold:
  assumes "t < length (predHist s)" and "squash env sn t (squash_entry env s) = Inr s3"
  shows "squash_mispredict env sn corr taken t s =
     (if predHist s3 ! t = [] then Inr s3
      else if seqNum (hd (predHist s3 ! t)) \<noteq> sn then Inl AssertFail
      else Inr ((snd (squash_fix env sn corr taken t (hd (predHist s3 ! t), s3)))
                  \<lparr>predHist := (predHist s3)[t := fst (squash_fix env sn corr taken t (hd (predHist s3 ! t), s3))
                                                   # tl (predHist s3 ! t)]\<rparr>))"
  using assms
  by (simp add: squash_mispredict_def bind_err_def case_prod_beta squash_fix_simps)

text \<open>
  Claim C2. Let the flush inside the misprediction squash return the unit \<open>s3\<close>; its
  queue for \<open>t\<close> is the old one without the leading records numbered above \<open>sn\<close>. If
  that queue is empty, the call returns \<open>s3\<close> itself: nothing more changes. If it is not
  empty and its front does not carry \<open>sn\<close>, the call fails at the assertion of line 403
  and nothing is repaired. If the front carries \<open>sn\<close>, the call returns, it is that front
  record which is marked mispredicted, and the records behind it are untouched.
\<close>

theorem squash_mispredict_boundary:
  assumes "t < length (predHist s)" and "squash env sn t (squash_entry env s) = Inr s3"
  shows "predHist s3 ! t = dropWhile (\<lambda>h. sn < seqNum h) (predHist s ! t) \<and>
     (predHist s3 ! t = [] \<longrightarrow> squash_mispredict env sn corr taken t s = Inr s3) \<and>
     (predHist s3 ! t \<noteq> [] \<and> seqNum (hd (predHist s3 ! t)) \<noteq> sn \<longrightarrow>
        squash_mispredict env sn corr taken t s = Inl AssertFail) \<and>
     (predHist s3 ! t \<noteq> [] \<and> seqNum (hd (predHist s3 ! t)) = sn \<longrightarrow>
        (\<exists>s'. squash_mispredict env sn corr taken t s = Inr s' \<and>
              map seqNum (predHist s' ! t) = map seqNum (predHist s3 ! t) \<and>
              tl (predHist s' ! t) = tl (predHist s3 ! t) \<and>
              mispredict (hd (predHist s' ! t))))"
proof -
  note u = squash_mispredict_unfold[OF assms, of corr taken]
  from squash_char[OF assms(2)] have
    q: "predHist s3 = (predHist s)[t := dropWhile (\<lambda>h. sn < seqNum h) (predHist s ! t)]"
    by simp
  have t3: "t < length (predHist s3)" using q assms(1) by simp
  have 1: "predHist s3 ! t = dropWhile (\<lambda>h. sn < seqNum h) (predHist s ! t)"
    using q assms(1) by simp
  have 2: "predHist s3 ! t = [] \<longrightarrow> squash_mispredict env sn corr taken t s = Inr s3"
    using u by simp
  have 3: "predHist s3 ! t \<noteq> [] \<and> seqNum (hd (predHist s3 ! t)) \<noteq> sn \<longrightarrow>
        squash_mispredict env sn corr taken t s = Inl AssertFail"
    using u by simp
  have 4: "predHist s3 ! t \<noteq> [] \<and> seqNum (hd (predHist s3 ! t)) = sn \<longrightarrow>
        (\<exists>s'. squash_mispredict env sn corr taken t s = Inr s' \<and>
              map seqNum (predHist s' ! t) = map seqNum (predHist s3 ! t) \<and>
              tl (predHist s' ! t) = tl (predHist s3 ! t) \<and>
              mispredict (hd (predHist s' ! t)))"
  proof
    assume a: "predHist s3 ! t \<noteq> [] \<and> seqNum (hd (predHist s3 ! t)) = sn"
    let ?f = "squash_fix env sn corr taken t (hd (predHist s3 ! t), s3)"
    let ?s = "(snd ?f)\<lparr>predHist := (predHist s3)[t := fst ?f # tl (predHist s3 ! t)]\<rparr>"
    have e: "squash_mispredict env sn corr taken t s = Inr ?s" using u a by simp
    have h: "predHist ?s ! t = fst ?f # tl (predHist s3 ! t)" using t3 by simp
    have "map seqNum (predHist ?s ! t) = map seqNum (predHist s3 ! t)"
      using a t3 by (cases "predHist s3 ! t") (simp_all add: squash_fix_simps)
    moreover have "mispredict (hd (predHist ?s ! t))" using t3 by (simp add: squash_fix_simps)
    ultimately show "\<exists>s'. squash_mispredict env sn corr taken t s = Inr s' \<and>
              map seqNum (predHist s' ! t) = map seqNum (predHist s3 ! t) \<and>
              tl (predHist s' ! t) = tl (predHist s3 ! t) \<and>
              mispredict (hd (predHist s' ! t))"
      using e h by (intro exI[of _ ?s]) simp
  qed
  show ?thesis using 1 2 3 4 by blast
qed

theorem squash_mispredict_boundary_witness:
  "\<exists>s3. squash ex_hit 11 0 (squash_entry ex_hit ex_two_jumps) = Inr s3 \<and>
        map seqNum (predHist s3 ! 0) = [10] \<and>
        squash_mispredict ex_hit 11 (PCState 0x3000 0) True 0 ex_two_jumps = Inl AssertFail"
proof -
  let ?F = "squash ex_hit 11 0 (squash_entry ex_hit ex_two_jumps)"
  have t: "0 < length (predHist ex_two_jumps)" by code_simp
  have "case ?F of Inr s3 \<Rightarrow> map seqNum (predHist s3 ! 0) = [10] | Inl e \<Rightarrow> False"
    by code_simp
  then obtain s3 where f: "?F = Inr s3" "map seqNum (predHist s3 ! 0) = [10]"
    by (cases ?F) auto
  have n: "predHist s3 ! 0 \<noteq> [] \<and> seqNum (hd (predHist s3 ! 0)) \<noteq> 11"
    using f(2) by (cases "predHist s3 ! 0") auto
  from squash_mispredict_boundary[OF t f(1), of "PCState 0x3000 0" True] n
  have "squash_mispredict ex_hit 11 (PCState 0x3000 0) True 0 ex_two_jumps = Inl AssertFail"
    by blast
  then show ?thesis using f
    by - (rule exI[of _ s3], (intro conjI; assumption))
qed

lemma stats_le_refl [simp]: "stats_le a a"
  by (simp add: stats_le_def)

lemma stats_le_trans: "stats_le a b \<Longrightarrow> stats_le b c \<Longrightarrow> stats_le a c"
  by (auto simp: stats_le_def)

text \<open>What a misprediction squash that returns has done.\<close>

lemma squash_mispredict_char:
  assumes "squash_mispredict env sn corr taken t s = Inr s'"
  shows "t < length (predHist s) \<and>
     (\<exists>q. predHist s' = (predHist s)[t := q] \<and>
          map seqNum q = map seqNum (dropWhile (\<lambda>h. sn < seqNum h) (predHist s ! t))) \<and>
     (\<exists>ext. calls s' = calls s @ (ppMisses_notify 1, respond env (calls s) (ppMisses_notify 1)) # ext \<and>
          silent ext) \<and>
     condIncorrect (stats s') = Suc (condIncorrect (stats s)) \<and>
     BTBLookups (stats s') = BTBLookups (stats s) \<and> BTBHits (stats s') = BTBHits (stats s) \<and>
     indirectLookups (stats s') = indirectLookups (stats s) \<and>
     indirectHits (stats s') = indirectHits (stats s) \<and>
     indirectMisses (stats s') = indirectMisses (stats s) \<and>
     stats_le (stats s) (stats s')"
proof -
  have t: "t < length (predHist s)"
    using assms by (auto simp: squash_mispredict_def split: if_splits)
  obtain s3 where f: "squash env sn t (squash_entry env s) = Inr s3"
    using assms t by (auto simp: squash_mispredict_def bind_err_def split: sum.splits)
  note u = squash_mispredict_unfold[OF t f, of corr taken]
  from squash_char[OF f] obtain e1 where
    q: "predHist s3 = (predHist s)[t := dropWhile (\<lambda>h. sn < seqNum h) (predHist s ! t)]" and
    st: "stats s3 = condIncorrect_update Suc (stats s)" and
    c1: "calls s3 = calls s @ (ppMisses_notify 1, respond env (calls s) (ppMisses_notify 1)) # e1"
        "list_all is_squash_call (map fst e1)"
    by auto
  note s1 = squash_calls_silent[OF c1(2)]
  have t3: "t < length (predHist s3)" using q t by simp
  show ?thesis
  proof (cases "predHist s3 ! t = []")
    case True
    then have e: "s' = s3" using u assms by simp
    have "predHist s' = (predHist s)[t := dropWhile (\<lambda>h. sn < seqNum h) (predHist s ! t)]"
      using e q by simp
    then have "\<exists>q. predHist s' = (predHist s)[t := q] \<and>
          map seqNum q = map seqNum (dropWhile (\<lambda>h. sn < seqNum h) (predHist s ! t))" by blast
    moreover have "\<exists>ext. calls s' = calls s @ (ppMisses_notify 1, respond env (calls s) (ppMisses_notify 1)) # ext \<and>
          silent ext" using e c1 s1 by blast
    ultimately show ?thesis using t st e by (simp add: stats_le_def)
  next
    case False
    let ?f = "squash_fix env sn corr taken t (hd (predHist s3 ! t), s3)"
    have e: "s' = (snd ?f)\<lparr>predHist := (predHist s3)[t := fst ?f # tl (predHist s3 ! t)]\<rparr>"
      using u assms False by (simp split: if_splits)
    have "predHist s' = (predHist s)[t := fst ?f # tl (predHist s3 ! t)]"
      using e q by simp
    moreover have "map seqNum (fst ?f # tl (predHist s3 ! t)) =
          map seqNum (dropWhile (\<lambda>h. sn < seqNum h) (predHist s ! t))"
      using False q t by (cases "predHist s3 ! t") (simp_all add: squash_fix_simps)
    ultimately have 1: "\<exists>q. predHist s' = (predHist s)[t := q] \<and>
          map seqNum q = map seqNum (dropWhile (\<lambda>h. sn < seqNum h) (predHist s ! t))" by blast
    obtain e2 where e2: "calls (snd ?f) = calls s3 @ e2" "silent e2"
      using squash_fix_calls[of env sn corr taken t "(hd (predHist s3 ! t), s3)"] by auto
    have "calls s' = calls s @ (ppMisses_notify 1, respond env (calls s) (ppMisses_notify 1)) # (e1 @ e2)"
      using e e2 c1 by simp
    moreover have "silent (e1 @ e2)" using s1 e2 by simp
    ultimately have 2: "\<exists>ext. calls s' = calls s @ (ppMisses_notify 1, respond env (calls s) (ppMisses_notify 1)) # ext \<and>
          silent ext" by blast
    have 3: "stats s' = stats (snd ?f)" using e by simp
    show ?thesis using t 1 2 unfolding 3 squash_fix_stats
      by (simp add: st Let_def stats_le_def)
  qed
qed

text \<open>
  Claim C5. Let the flush inside the misprediction squash return \<open>s3\<close> with the boundary
  record \<open>b\<close>, numbered \<open>sn\<close>, at the front. Then the call returns, and: when the branch
  was taken and \<open>b\<close> was not an indirect lookup, \<open>BTBUpdates\<close> goes up by one and the only
  \<^verbatim>\<open>btb->update\<close> call has the thread, the PC of \<open>b\<close>, the corrected target and the branch
  type of the instruction of \<open>b\<close>; when it was taken and \<open>b\<close> was an indirect lookup,
  \<open>indirectMispredicted\<close> goes up by one and the BTB is not updated; when it was not taken,
  neither counter changes and the BTB is not updated.
\<close>

theorem squash_mispredict_btb_update:
  assumes "t < length (predHist s)" and "squash env sn t (squash_entry env s) = Inr s3"
      and "predHist s3 ! t = b # rest" and "seqNum b = sn"
  shows "\<exists>s'. squash_mispredict env sn corr taken t s = Inr s' \<and>
     BTBUpdates (stats s') =
       BTBUpdates (stats s) + (if taken \<and> \<not> wasIndirect b then 1 else 0) \<and>
     indirectMispredicted (stats s') =
       indirectMispredicted (stats s) + (if taken \<and> wasIndirect b then 1 else 0) \<and>
     filter is_btb_update (map fst (new_calls s s')) =
       (if taken \<and> \<not> wasIndirect b
        then [btb_update t (pc b) corr (getBranchType env (inst b))] else [])"
proof -
  let ?f = "squash_fix env sn corr taken t (b, s3)"
  let ?s = "(snd ?f)\<lparr>predHist := (predHist s3)[t := fst ?f # rest]\<rparr>"
  have e: "squash_mispredict env sn corr taken t s = Inr ?s"
    using squash_mispredict_unfold[OF assms(1,2), of corr taken] assms(3,4) by simp
  from squash_char[OF assms(2)] obtain e1 where
    st: "stats s3 = condIncorrect_update Suc (stats s)" and
    c1: "calls s3 = calls s @ (ppMisses_notify 1, respond env (calls s) (ppMisses_notify 1)) # e1"
        "list_all is_squash_call (map fst e1)"
    by auto
  note s1 = squash_calls_silent[OF c1(2)]
  obtain e2 where e2: "calls (snd ?f) = calls s3 @ e2"
      "filter is_btb_update (map fst e2) =
         (if taken \<and> \<not> wasIndirect b
          then [btb_update t (pc b) corr (getBranchType env (inst b))] else [])"
    using squash_fix_calls[of env sn corr taken t "(b, s3)", unfolded fst_conv snd_conv]
    by blast
  have n: "new_calls s ?s = (ppMisses_notify 1, respond env (calls s) (ppMisses_notify 1)) # e1 @ e2"
    using e2 c1 by (simp add: new_calls_def)
  have 1: "filter is_btb_update (map fst (new_calls s ?s)) =
       (if taken \<and> \<not> wasIndirect b
        then [btb_update t (pc b) corr (getBranchType env (inst b))] else [])"
    unfolding n using s1 e2(2) by simp
  have 2: "BTBUpdates (stats ?s) =
       BTBUpdates (stats s) + (if taken \<and> \<not> wasIndirect b then 1 else 0)"
    by (simp add: squash_fix_stats st Let_def)
  have 3: "indirectMispredicted (stats ?s) =
       indirectMispredicted (stats s) + (if taken \<and> wasIndirect b then 1 else 0)"
    by (simp add: squash_fix_stats st Let_def)
  show ?thesis using e 1 2 3 by blast
qed

text \<open>What a \<open>predict\<close> that returns has counted and called.\<close>

lemma predict_char:
  assumes "predict env i sn pcs t s = Inr (tk, p, s')"
  shows "\<exists>ext. calls s' = calls s @ (ppBranches_notify 1, respond env (calls s) (ppBranches_notify 1)) # ext \<and>
     filter is_probe (map fst ext) = [] \<and>
     lookups (stats s') = Suc (lookups (stats s)) \<and>
     BTBLookups (stats s') = BTBLookups (stats s) + length (filter btb_asked ext) \<and>
     BTBHits (stats s') = BTBHits (stats s) + length (filter btb_hit ext) \<and>
     indirectLookups (stats s') = indirectLookups (stats s) + length (filter iPred_asked ext) \<and>
     indirectHits (stats s') = indirectHits (stats s) + length (filter iPred_hit ext) \<and>
     indirectMisses (stats s') = indirectMisses (stats s) + length (filter iPred_miss ext) \<and>
     stats_le (stats s) (stats s')"
  using assms
  by (auto simp: predict_defs Let_def stats_le_def btb_asked_def btb_hit_def iPred_asked_def
        iPred_hit_def iPred_miss_def split: if_splits option.splits)

theorem squash_mispredict_btb_update_witness:
  "\<exists>s'. squash_mispredict ex_hit 10 (PCState 0x3000 0) True 0 ex_two_jumps = Inr s' \<and>
        BTBUpdates (stats s') = BTBUpdates (stats ex_two_jumps) + 1 \<and>
        indirectMispredicted (stats s') = indirectMispredicted (stats ex_two_jumps) \<and>
        filter is_btb_update (map fst (new_calls ex_two_jumps s')) =
          [btb_update 0 0x1000 (PCState 0x3000 0) 3]"
proof -
  let ?F = "squash ex_hit 10 0 (squash_entry ex_hit ex_two_jumps)"
  have t: "0 < length (predHist ex_two_jumps)" by code_simp
  have "case ?F of Inl e \<Rightarrow> False
        | Inr s3 \<Rightarrow> (case predHist s3 ! 0 of [] \<Rightarrow> False
                     | b # rest \<Rightarrow> seqNum b = 10 \<and> \<not> wasIndirect b \<and> pc b = 0x1000 \<and>
                                  getBranchType ex_hit (inst b) = 3)"
    by code_simp
  then obtain s3 b rest where f: "?F = Inr s3" "predHist s3 ! 0 = b # rest" "seqNum b = 10"
     and b: "\<not> wasIndirect b" "pc b = 0x1000" "getBranchType ex_hit (inst b) = 3"
    by (cases ?F) (auto split: list.splits)
  from squash_mispredict_btb_update[OF t f, of "PCState 0x3000 0" True] obtain s' where
    r: "squash_mispredict ex_hit 10 (PCState 0x3000 0) True 0 ex_two_jumps = Inr s'"
       "BTBUpdates (stats s') =
          BTBUpdates (stats ex_two_jumps) + (if True \<and> \<not> wasIndirect b then 1 else 0)"
       "indirectMispredicted (stats s') =
          indirectMispredicted (stats ex_two_jumps) + (if True \<and> wasIndirect b then 1 else 0)"
       "filter is_btb_update (map fst (new_calls ex_two_jumps s')) =
          (if True \<and> \<not> wasIndirect b
           then [btb_update 0 (pc b) (PCState 0x3000 0) (getBranchType ex_hit (inst b))] else [])"
    by blast
  have 1: "BTBUpdates (stats s') = BTBUpdates (stats ex_two_jumps) + 1" using r(2) b by simp
  have 2: "indirectMispredicted (stats s') = indirectMispredicted (stats ex_two_jumps)"
    using r(3) b by simp
  have 3: "filter is_btb_update (map fst (new_calls ex_two_jumps s')) =
          [btb_update 0 0x1000 (PCState 0x3000 0) 3]" using r(4) b by simp
  show ?thesis using r(1) 1 2 3
    by - (rule exI[of _ s'], (intro conjI; assumption))
qed

section \<open>Counters and probes on entry\<close>

text \<open>
  Claim C9. Every misprediction squash that returns has raised \<open>condIncorrect\<close> by exactly
  one and has fired the probe Misses exactly once, with count 1, as its first call;
  nothing in the statement depends on the queue after the flush or on the kind of the
  branch. Every \<open>predict\<close> that returns has raised \<open>lookups\<close> by one and has fired the probe
  Branches exactly once, with count 1, as its first call. (A call that fails stops the
  simulation and leaves no unit to look at.)
\<close>

theorem entry_counters_and_probes:
  "(squash_mispredict env sn corr taken t s = Inr s' \<longrightarrow>
      condIncorrect (stats s') = condIncorrect (stats s) + 1 \<and>
      filter is_probe (map fst (new_calls s s')) = [ppMisses_notify 1] \<and>
      (\<exists>r rest. new_calls s s' = (ppMisses_notify 1, r) # rest)) \<and>
   (predict env i sn2 pcs t s = Inr (tk, p, s2) \<longrightarrow>
      lookups (stats s2) = lookups (stats s) + 1 \<and>
      filter is_probe (map fst (new_calls s s2)) = [ppBranches_notify 1] \<and>
      (\<exists>r rest. new_calls s s2 = (ppBranches_notify 1, r) # rest))"
proof (intro conjI impI)
  assume a: "squash_mispredict env sn corr taken t s = Inr s'"
  from squash_mispredict_char[OF a] obtain ext where
    c: "calls s' = calls s @ (ppMisses_notify 1, respond env (calls s) (ppMisses_notify 1)) # ext"
       "silent ext" and n: "condIncorrect (stats s') = Suc (condIncorrect (stats s))"
    by blast
  show "condIncorrect (stats s') = condIncorrect (stats s) + 1" using n by simp
  show "filter is_probe (map fst (new_calls s s')) = [ppMisses_notify 1]"
    using c silent_filters(6)[OF c(2)] by (simp add: new_calls_def)
  show "\<exists>r rest. new_calls s s' = (ppMisses_notify 1, r) # rest"
    using c by (simp add: new_calls_def)
next
  assume a: "predict env i sn2 pcs t s = Inr (tk, p, s2)"
  from predict_char[OF a] obtain ext where
    c: "calls s2 = calls s @ (ppBranches_notify 1, respond env (calls s) (ppBranches_notify 1)) # ext"
       "filter is_probe (map fst ext) = []" and n: "lookups (stats s2) = Suc (lookups (stats s))"
    by blast
  show "lookups (stats s2) = lookups (stats s) + 1" using n by simp
  show "filter is_probe (map fst (new_calls s s2)) = [ppBranches_notify 1]"
    using c by (simp add: new_calls_def)
  show "\<exists>r rest. new_calls s s2 = (ppBranches_notify 1, r) # rest"
    using c by (simp add: new_calls_def)
qed

theorem entry_counters_and_probes_witness:
  "\<exists>s' tk p s2.
     squash_mispredict ex_hit 5 (PCState 0x3000 0) True 0 (BPredUnit_init 1) = Inr s' \<and>
     condIncorrect (stats s') = condIncorrect (stats (BPredUnit_init 1)) + 1 \<and>
     filter is_probe (map fst (new_calls (BPredUnit_init 1) s')) = [ppMisses_notify 1] \<and>
     predict ex_hit ex_jump 10 (PCState 0x1000 0) 0 (BPredUnit_init 1) = Inr (tk, p, s2) \<and>
     lookups (stats s2) = lookups (stats (BPredUnit_init 1)) + 1 \<and>
     filter is_probe (map fst (new_calls (BPredUnit_init 1) s2)) = [ppBranches_notify 1]"
proof -
  let ?S = "BPredUnit_init 1"
  let ?M = "squash_mispredict ex_hit 5 (PCState 0x3000 0) True 0 ?S"
  let ?P = "predict ex_hit ex_jump 10 (PCState 0x1000 0) 0 ?S"
  have "case ?M of Inr s \<Rightarrow> True | Inl e \<Rightarrow> False" by code_simp
  then obtain s' where m: "?M = Inr s'" by (cases ?M) auto
  have "case ?P of Inr s \<Rightarrow> True | Inl e \<Rightarrow> False" by code_simp
  then obtain tk p s2 where q: "?P = Inr (tk, p, s2)" by (cases ?P) auto
  note th = entry_counters_and_probes[of ex_hit 5 "PCState 0x3000 0" True 0 ?S s'
               ex_jump 10 "PCState 0x1000 0" tk p s2]
  have 1: "condIncorrect (stats s') = condIncorrect (stats ?S) + 1"
          "filter is_probe (map fst (new_calls ?S s')) = [ppMisses_notify 1]"
    using th[THEN conjunct1, rule_format, OF m] by simp_all
  have 2: "lookups (stats s2) = lookups (stats ?S) + 1"
          "filter is_probe (map fst (new_calls ?S s2)) = [ppBranches_notify 1]"
    using th[THEN conjunct2, rule_format, OF q] by simp_all
  show ?thesis using m 1 q 2
    by - (rule exI[of _ s'], rule exI[of _ tk], rule exI[of _ p], rule exI[of _ s2],
          (intro conjI; assumption))
qed

section \<open>The null RAS pointer\<close>

lemma predict_return_result:
  "isReturn i \<and> \<not> ras_present env \<Longrightarrow> predict_return env i t fr = Inl NullDeref"
  "\<not> (isReturn i \<and> \<not> ras_present env) \<Longrightarrow> \<exists>fr'. predict_return env i t fr = Inr fr'"
  by (cases fr; simp add: predict_return_def Let_def case_prod_beta)+

lemma predict_call_result:
  "isCall i \<and> \<not> ras_present env \<Longrightarrow> predict_call env i pcs t fr = Inl NullDeref"
  "\<not> (isCall i \<and> \<not> ras_present env) \<Longrightarrow> \<exists>fr'. predict_call env i pcs t fr = Inr fr'"
  by (cases fr; simp add: predict_call_def Let_def case_prod_beta)+

lemma predict_btb_result:
  "ras_present env \<or> \<not> isCall i \<Longrightarrow> \<exists>fr'. predict_btb env i pcs t h fr = Inr fr'"
  by (cases fr) (auto simp: predict_btb_def Let_def case_prod_beta split: option.splits)

lemma predict_indirect_result:
  "ras_present env \<or> \<not> isCall i \<Longrightarrow> \<exists>fr'. predict_indirect env i sn pcs t fr = Inr fr'"
  by (cases fr) (auto simp: predict_indirect_def Let_def case_prod_beta split: option.splits)

lemma predict_target_result:
  "tk \<and> \<not> ras_present env \<and> (isReturn i \<or> isCall i) \<Longrightarrow>
     predict_target env i sn pcs t h (tk, fr) = Inl NullDeref"
  "\<not> (tk \<and> \<not> ras_present env \<and> (isReturn i \<or> isCall i)) \<Longrightarrow>
     \<exists>fr'. predict_target env i sn pcs t h (tk, fr) = Inr fr'"
proof -
  assume a: "tk \<and> \<not> ras_present env \<and> (isReturn i \<or> isCall i)"
  show "predict_target env i sn pcs t h (tk, fr) = Inl NullDeref"
  proof (cases "isReturn i")
    case True
    then have "predict_return env i t (tk, fr) = Inl NullDeref"
      using a predict_return_result(1) by blast
    then show ?thesis using a by (cases fr) (simp add: predict_target_def bind_err_def)
  next
    case False
    then obtain fr1 where r1: "predict_return env i t (tk, fr) = Inr fr1"
      using predict_return_result(2)[of i env t "(tk, fr)"] by blast
    have "predict_call env i pcs t fr1 = Inl NullDeref"
      using a False predict_call_result(1) by blast
    then show ?thesis using a r1 by (cases fr) (simp add: predict_target_def bind_err_def)
  qed
next
  assume n: "\<not> (tk \<and> \<not> ras_present env \<and> (isReturn i \<or> isCall i))"
  show "\<exists>fr'. predict_target env i sn pcs t h (tk, fr) = Inr fr'"
  proof (cases tk)
    case False
    then show ?thesis by (cases fr) (auto simp: predict_target_def)
  next
    case tt: True
    with n have ok: "ras_present env \<or> (\<not> isReturn i \<and> \<not> isCall i)" by blast
    obtain fr1 where r1: "predict_return env i t (tk, fr) = Inr fr1"
      using ok predict_return_result(2)[of i env t "(tk, fr)"] by blast
    obtain fr2 where r2: "predict_call env i pcs t fr1 = Inr fr2"
      using ok predict_call_result(2)[of i env pcs t fr1] by blast
    have c: "ras_present env \<or> \<not> isCall i" using ok by blast
    obtain fr3 where r3: "predict_btb env i pcs t h fr2 = Inr fr3"
      using predict_btb_result[OF c] by blast
    obtain fr4 where r4: "predict_indirect env i sn pcs t fr2 = Inr fr4"
      using predict_indirect_result[OF c] by blast
    have "predict_target env i sn pcs t h (tk, fr) =
            (if \<not> isReturn i
             then (if isDirectCtrl i \<or> \<not> iPred_present env then Inr fr3 else Inr fr4)
             else Inr fr2)"
      using tt r1 r2 r3 r4 by (cases fr) (simp add: predict_target_def bind_err_def)
    then show ?thesis by metis
  qed
qed


text \<open>
  \<open>predict\<close> fails exactly on the null RAS pointer: when the RAS is absent, the
  direction is taken and the instruction is a return or a call.
\<close>

lemma predict_result:
  assumes "t < length (predHist s)"
  shows "\<not> ras_present env \<and> fst (predict_direction env i pcs t s) \<and> (isReturn i \<or> isCall i)
           \<Longrightarrow> predict env i sn pcs t s = Inl NullDeref"
    and "\<not> (\<not> ras_present env \<and> fst (predict_direction env i pcs t s) \<and> (isReturn i \<or> isCall i))
           \<Longrightarrow> \<exists>tk p s'. predict env i sn pcs t s = Inr (tk, p, s')"
proof -
  obtain tk h s1 where d: "predict_direction env i pcs t s = (tk, h, s1)"
    by (cases "predict_direction env i pcs t s") auto
  let ?fr = "(pcs, mkPredictorHistory sn (instAddr pcs) tk h None t i, s1)"
  have p: "predict env i sn pcs t s =
     bind_err (predict_target env i sn pcs t h (tk, ?fr)) (\<lambda>fr. Inr (predict_finish env i sn t fr))"
    using assms d by (simp add: predict_def)
  {
    assume "\<not> ras_present env \<and> fst (predict_direction env i pcs t s) \<and> (isReturn i \<or> isCall i)"
    then have "tk \<and> \<not> ras_present env \<and> (isReturn i \<or> isCall i)" using d by simp
    from predict_target_result(1)[OF this]
    show "predict env i sn pcs t s = Inl NullDeref" by (simp add: p bind_err_def)
  next
    assume "\<not> (\<not> ras_present env \<and> fst (predict_direction env i pcs t s) \<and> (isReturn i \<or> isCall i))"
    then have "\<not> (tk \<and> \<not> ras_present env \<and> (isReturn i \<or> isCall i))" using d by simp
    from predict_target_result(2)[OF this] obtain fr' where
      "predict_target env i sn pcs t h (tk, ?fr) = Inr fr'" by blast
    then have "predict env i sn pcs t s = Inr (predict_finish env i sn t fr')"
      by (simp add: p bind_err_def)
    then show "\<exists>tk p s'. predict env i sn pcs t s = Inr (tk, p, s')"
      by (cases "predict_finish env i sn t fr'") auto
  }
qed

lemma squash_loop_no_null: "squash_loop env sn t s \<noteq> Inl NullDeref"
proof (induction env sn t s rule: squash_loop.induct)
  case (1 env sn t s)
  show ?case
    using "1.IH" by (subst squash_loop.simps) (auto simp: Let_def)
qed

lemma squash_mispredict_no_null: "squash_mispredict env sn corr taken t s \<noteq> Inl NullDeref"
  using squash_loop_no_null
  by (auto simp: squash_mispredict_def squash_def bind_err_def case_prod_beta split: sum.splits if_splits)

lemma commit_calls_no_ras:
  "\<not> ras_present env \<Longrightarrow> filter is_ras_call (concat (map (commit_calls env t) xs)) = []"
  by (induction xs) (auto simp: commit_calls_def commit_A_def commit_iPred_def)

lemma update_no_ras:
  assumes "update env d t s = Inr s'" and "\<not> ras_present env"
  shows "filter is_ras_call (map fst (new_calls s s')) = []"
proof -
  have t: "t < length (predHist s)" and e: "s' = update_loop env d t s"
    using assms(1) by (auto simp: update_def split: if_splits)
  from update_loop_char[OF t, of env d] obtain ext where
    "calls s' = calls s @ ext" "map fst ext = concat (map (commit_calls env t)
                       (takeWhile (\<lambda>b. seqNum b \<le> d) (rev (predHist s ! t))))"
    unfolding e by blast
  then show ?thesis using commit_calls_no_ras[OF assms(2)] by (simp add: new_calls_def)
qed

lemma squash_mispredict_no_ras:
  assumes "squash_mispredict env sn corr taken t s = Inr s'" and "\<not> ras_present env"
  shows "filter is_ras_call (map fst (new_calls s s')) = []"
proof -
  have t: "t < length (predHist s)"
    using assms(1) by (auto simp: squash_mispredict_def split: if_splits)
  obtain s3 where f: "squash env sn t (squash_entry env s) = Inr s3"
    using assms(1) t by (auto simp: squash_mispredict_def bind_err_def split: sum.splits)
  note u = squash_mispredict_unfold[OF t f, of corr taken]
  from squash_char[OF f] assms(2) obtain e1 where
    c1: "calls s3 = calls s @ (ppMisses_notify 1, respond env (calls s) (ppMisses_notify 1)) # e1"
        "filter is_ras_call (map fst e1) = []"
    by auto
  show ?thesis
  proof (cases "predHist s3 ! t = []")
    case True
    then have "s' = s3" using u assms(1) by simp
    then show ?thesis using c1 by (simp add: new_calls_def)
  next
    case False
    let ?f = "squash_fix env sn corr taken t (hd (predHist s3 ! t), s3)"
    have e: "s' = (snd ?f)\<lparr>predHist := (predHist s3)[t := fst ?f # tl (predHist s3 ! t)]\<rparr>"
      using u assms(1) False by (simp split: if_splits)
    obtain e2 where e2: "calls (snd ?f) = calls s3 @ e2" "filter is_ras_call (map fst e2) = []"
      using squash_fix_calls[of env sn corr taken t "(hd (predHist s3 ! t), s3)"] assms(2) by auto
    show ?thesis using e e2 c1 by (simp add: new_calls_def)
  qed
qed

text \<open>
  Claim C10. For a valid thread: \<open>predict\<close> fails on the null RAS pointer exactly when
  the RAS is absent, the direction (lines 144 to 157) is taken and the instruction is a
  return or a call, and in every other case it returns; so it is total only under the
  precondition that the RAS is present whenever a taken return or call is predicted. The
  commit \<open>update\<close> always returns, and the misprediction squash never fails on a null
  pointer; with the RAS absent, neither of them makes any call to the RAS.
\<close>

theorem ras_null_checks:
  assumes "t < length (predHist s)"
  shows "(predict env i sn pcs t s = Inl NullDeref \<longleftrightarrow>
            \<not> ras_present env \<and> fst (predict_direction env i pcs t s) \<and> (isReturn i \<or> isCall i)) \<and>
         (predict env i sn pcs t s \<noteq> Inl NullDeref \<longrightarrow>
            (\<exists>tk p s'. predict env i sn pcs t s = Inr (tk, p, s'))) \<and>
         (\<exists>s'. update env d t s = Inr s' \<and>
               (\<not> ras_present env \<longrightarrow> filter is_ras_call (map fst (new_calls s s')) = [])) \<and>
         squash_mispredict env sn corr taken t s \<noteq> Inl NullDeref \<and>
         (\<forall>s'. squash_mispredict env sn corr taken t s = Inr s' \<and> \<not> ras_present env \<longrightarrow>
               filter is_ras_call (map fst (new_calls s s')) = [])"
proof -
  note p = predict_result[OF assms, of env i pcs sn]
  have 1: "predict env i sn pcs t s = Inl NullDeref \<longleftrightarrow>
            \<not> ras_present env \<and> fst (predict_direction env i pcs t s) \<and> (isReturn i \<or> isCall i)"
    using p by (metis Inl_Inr_False)
  have 2: "predict env i sn pcs t s \<noteq> Inl NullDeref \<longrightarrow>
            (\<exists>tk p s'. predict env i sn pcs t s = Inr (tk, p, s'))"
    using p by blast
  have u: "update env d t s = Inr (update_loop env d t s)" using assms by (simp add: update_def)
  have 3: "\<exists>s'. update env d t s = Inr s' \<and>
               (\<not> ras_present env \<longrightarrow> filter is_ras_call (map fst (new_calls s s')) = [])"
    using u update_no_ras[OF u] by blast
  show ?thesis using 1 2 3 squash_mispredict_no_null squash_mispredict_no_ras by blast
qed

theorem ras_null_checks_witness:
  "predict (ex_collab True False True (Some (PCState 0x4000 0)) None None)
      (ex_inst True False True True) 20 (PCState 0x3000 0) 0 (BPredUnit_init 1) = Inl NullDeref \<and>
   (\<exists>s'. update (ex_collab True False True (Some (PCState 0x4000 0)) None None) 12 0 ex_two_jumps
            = Inr s' \<and>
         filter is_ras_call (map fst (new_calls ex_two_jumps s')) = [])"
proof -
  let ?E = "ex_collab True False True (Some (PCState 0x4000 0)) None None"
  let ?C = "ex_inst True False True True"
  have t: "0 < length (predHist (BPredUnit_init 1))" by (simp add: ex_defs)
  have t2: "0 < length (predHist ex_two_jumps)" by code_simp
  have n: "\<not> ras_present ?E" by (simp add: ex_defs)
  have d: "fst (predict_direction ?E ?C (PCState 0x3000 0) 0 (BPredUnit_init 1))"
    by (simp add: predict_direction_def ex_defs Let_def case_prod_beta)
  have c: "isReturn ?C \<or> isCall ?C" by (simp add: ex_defs)
  have 1: "predict ?E ?C 20 (PCState 0x3000 0) 0 (BPredUnit_init 1) = Inl NullDeref"
    using ras_null_checks[OF t, of ?E ?C 20 "PCState 0x3000 0", THEN conjunct1] n d c by blast
  have 2: "\<exists>s'. update ?E 12 0 ex_two_jumps = Inr s' \<and>
         filter is_ras_call (map fst (new_calls ex_two_jumps s')) = []"
    using ras_null_checks[OF t2, of ?E ?C 20 "PCState 0x3000 0" 12,
              THEN conjunct2, THEN conjunct2, THEN conjunct1] n by blast
  show ?thesis using 1 2 by (rule conjI)
qed

section \<open>Calls and returns in \<open>predict\<close>\<close>

text \<open>No path of \<open>predict\<close> writes \<open>true\<close> to \<open>pushedRAS\<close>.\<close>

lemma predict_pushedRAS_false:
  assumes "predict env i sn pcs t s = Inr (tk, p, s')"
  shows "\<not> pushedRAS (hd (predHist s' ! t))"
  using assms
  by (auto simp: predict_defs Let_def split: if_splits option.splits)

text \<open>
  Claim C3. An unconditional direct call at \<open>0x3000\<close>, numbered 20, is predicted on a new
  unit whose BTB knows the target \<open>0x2000\<close>. The prediction is taken with target
  \<open>0x2000\<close>, the return address \<open>0x3004\<close> built from the branch PC is pushed on the RAS,
  and the token of the push is in \<open>rasHistory\<close>; but \<open>pushedRAS\<close> of the record, the third
  component of the record's view, is false: the comment of lines 191 and 192 announces
  that the call is recorded, and no statement of \<open>predict\<close> does it.
\<close>

theorem predict_call_pushedRAS:
  "predict_view 0 (predict ex_hit (ex_inst True False True True) 20 (PCState 0x3000 0) 0
                     (BPredUnit_init 1)) =
     Inr (True, PCState 0x2000 0, (True, 0x2000, False, Some 2),
          [(ppBranches_notify 1, None), (A_uncondBranch 0 0x3000 None, None),
           (ras_push 0 (PCState 0x3004 0) None, None),
           (btb_lookup 0 0x3000 2, Some (PCState 0x2000 0)),
           (iPred_update 0 20 0x3000 False True (PCState 0x2000 0) 2 None, None)])"
  by (simp add: predict_view_def predict_defs ex_defs ex_hit_def Let_def)

lemma predict_empty_ras:
  assumes "predict env i sn pcs t s = Inr (tk, p, s')"
      and "(ras_pop t h, r) \<in> set (new_calls s s')" and "ret_pc r = None"
  shows "tk \<and> isReturn i \<and> p = pcs \<and> predTaken (hd (predHist s' ! t)) \<and>
         target (hd (predHist s' ! t)) = instAddr pcs"
  using assms
  by (auto simp: predict_defs new_calls_def Let_def split: if_splits option.splits)

text \<open>
  Claim C4, as the code has it. With the RAS present and a valid thread, \<open>predict\<close>
  returns; and when one of its calls is a pop of the RAS that gave no address, the
  instruction is a return, the prediction returned and stored is taken, and the PC handed
  back and the target stored in the record are the PC of the branch itself as it came
  in: \<^verbatim>\<open>advancePC\<close> is not applied on this path.
\<close>

theorem predict_empty_ras_keeps_pc:
  assumes "t < length (predHist s)" and "ras_present env"
  shows "\<exists>tk p s'. predict env i sn pcs t s = Inr (tk, p, s') \<and>
           (\<forall>h r. (ras_pop t h, r) \<in> set (new_calls s s') \<and> ret_pc r = None \<longrightarrow>
                  tk \<and> isReturn i \<and> p = pcs \<and> predTaken (hd (predHist s' ! t)) \<and>
                  target (hd (predHist s' ! t)) = instAddr pcs)"
proof -
  from predict_result(2)[OF assms(1), of env i pcs sn] assms(2)
  obtain tk p s' where e: "predict env i sn pcs t s = Inr (tk, p, s')" by blast
  have "\<forall>h r. (ras_pop t h, r) \<in> set (new_calls s s') \<and> ret_pc r = None \<longrightarrow>
                  tk \<and> isReturn i \<and> p = pcs \<and> predTaken (hd (predHist s' ! t)) \<and>
                  target (hd (predHist s' ! t)) = instAddr pcs"
    using predict_empty_ras[OF e] by blast
  then show ?thesis using e by blast
qed

text \<open>
  Claim C4 as stated fails. An unconditional return at \<open>0x4040\<close> is predicted with an
  empty RAS: the prediction is taken, and the PC handed back and the stored target are
  \<open>0x4040\<close>, while the fall-through PC, the branch PC advanced, is \<open>0x4044\<close>.
\<close>

theorem predict_empty_ras_counterexample:
  "predict_view 0 (predict (ex_collab False True True None None None) (ex_inst True True False False)
                     21 (PCState 0x4040 0) 0 (BPredUnit_init 1)) =
     Inr (True, PCState 0x4040 0, (True, 0x4040, False, Some 2),
          [(ppBranches_notify 1, None), (A_uncondBranch 0 0x4040 None, None),
           (ras_pop 0 None, None)]) \<and>
   advancePC (ex_inst True True False False) (PCState 0x4040 0) = PCState 0x4044 0 \<and>
   PCState 0x4040 0 \<noteq> PCState 0x4044 0 \<and> (0x4040 :: Addr) \<noteq> 0x4044"
  by (simp add: predict_view_def predict_defs ex_defs Let_def)

theorem predict_empty_ras_keeps_pc_witness:
  "\<exists>tk p s' r.
     predict (ex_collab False True True None None None) (ex_inst True True False False)
        21 (PCState 0x4040 0) 0 (BPredUnit_init 1) = Inr (tk, p, s') \<and>
     (ras_pop 0 None, r) \<in> set (new_calls (BPredUnit_init 1) s') \<and> ret_pc r = None \<and>
     tk \<and> p = PCState 0x4040 0 \<and> target (hd (predHist s' ! 0)) = 0x4040"
proof -
  let ?E = "ex_collab False True True None None None"
  let ?R = "ex_inst True True False False"
  let ?S = "BPredUnit_init 1"
  let ?r = "\<lparr>ret_taken = True, ret_pc = None, ret_hist = Some 2\<rparr>"
  have t: "0 < length (predHist ?S)" by (simp add: ex_defs)
  have rp: "ras_present ?E" by (simp add: ex_defs)
  from predict_empty_ras_keeps_pc[OF t rp, of ?R 21 "PCState 0x4040 0"]
  obtain tk p s' where e: "predict ?E ?R 21 (PCState 0x4040 0) 0 ?S = Inr (tk, p, s')"
    and c: "\<forall>h r. (ras_pop 0 h, r) \<in> set (new_calls ?S s') \<and> ret_pc r = None \<longrightarrow>
                  tk \<and> isReturn ?R \<and> p = PCState 0x4040 0 \<and> predTaken (hd (predHist s' ! 0)) \<and>
                  target (hd (predHist s' ! 0)) = instAddr (PCState 0x4040 0)"
    by blast
  have m: "(ras_pop 0 None, ?r) \<in> set (new_calls ?S s')"
    using e by (simp add: predict_defs ex_defs new_calls_def Let_def) auto
  have n: "ret_pc ?r = None" by simp
  note k = c[rule_format, OF conjI[OF m n]]
  have 1: "tk" and 2: "p = PCState 0x4040 0"
     and 3: "target (hd (predHist s' ! 0)) = 0x4040" using k by simp_all
  show ?thesis using e m n 1 2 3
    by - (rule exI[of _ tk], rule exI[of _ p], rule exI[of _ s'], rule exI[of _ ?r],
          (intro conjI; assumption))
qed

section \<open>Statistics over a run\<close>

lemma counted_refl: "counted s s"
  by (simp add: counted_def)

lemma counted_trans: "counted a b \<Longrightarrow> counted b c \<Longrightarrow> counted a c"
  unfolding counted_def
  by (elim exE conjE, rule_tac x = "ext @ exta" in exI) (auto intro: stats_le_trans)

lemma counted_silent:
  assumes "calls s' = calls s @ ext" "silent ext" "stats_le (stats s) (stats s')"
    "BTBLookups (stats s') = BTBLookups (stats s)" "BTBHits (stats s') = BTBHits (stats s)"
    "indirectLookups (stats s') = indirectLookups (stats s)"
    "indirectHits (stats s') = indirectHits (stats s)"
    "indirectMisses (stats s') = indirectMisses (stats s)"
  shows "counted s s'"
  unfolding counted_def using assms silent_filters[OF assms(2)]
  by (intro exI[of _ ext]) simp

lemma predict_counted:
  assumes "predict env i sn pcs t s = Inr (tk, p, s')"
  shows "counted s s'"
proof -
  from predict_char[OF assms] obtain ext where
    e: "calls s' = calls s @ (ppBranches_notify 1, respond env (calls s) (ppBranches_notify 1)) # ext"
     "BTBLookups (stats s') = BTBLookups (stats s) + length (filter btb_asked ext)"
     "BTBHits (stats s') = BTBHits (stats s) + length (filter btb_hit ext)"
     "indirectLookups (stats s') = indirectLookups (stats s) + length (filter iPred_asked ext)"
     "indirectHits (stats s') = indirectHits (stats s) + length (filter iPred_hit ext)"
     "indirectMisses (stats s') = indirectMisses (stats s) + length (filter iPred_miss ext)"
     "stats_le (stats s) (stats s')"
    by blast
  show ?thesis unfolding counted_def
    using e
    by (intro exI[of _ "(ppBranches_notify 1, respond env (calls s) (ppBranches_notify 1)) # ext"])
       (simp add: btb_asked_def btb_hit_def iPred_asked_def iPred_hit_def iPred_miss_def)
qed

lemma update_counted:
  assumes "update env d t s = Inr s'"
  shows "counted s s'"
proof -
  have t: "t < length (predHist s)" and e: "s' = update_loop env d t s"
    using assms by (auto simp: update_def split: if_splits)
  from update_loop_char[OF t, of env d] obtain ext where
    c: "calls s' = calls s @ ext" "map fst ext = concat (map (commit_calls env t)
                       (takeWhile (\<lambda>b. seqNum b \<le> d) (rev (predHist s ! t))))"
    and st: "stats s' = stats s"
    unfolding e by blast
  show ?thesis using counted_silent[OF c(1) commit_calls_silent[OF c(2)]] st by simp
qed

lemma squash_counted:
  assumes "squash env sn t s = Inr s'"
  shows "counted s s'"
proof -
  from squash_char[OF assms] obtain ext where
    c: "calls s' = calls s @ ext" "list_all is_squash_call (map fst ext)" and st: "stats s' = stats s"
    by blast
  show ?thesis using counted_silent[OF c(1)] squash_calls_silent[OF c(2)] st by simp
qed

lemma squash_mispredict_counted:
  assumes "squash_mispredict env sn corr taken t s = Inr s'"
  shows "counted s s'"
proof -
  from squash_mispredict_char[OF assms] obtain ext where
    c: "calls s' = calls s @ (ppMisses_notify 1, respond env (calls s) (ppMisses_notify 1)) # ext"
       "silent ext"
    and st: "BTBLookups (stats s') = BTBLookups (stats s)" "BTBHits (stats s') = BTBHits (stats s)"
     "indirectLookups (stats s') = indirectLookups (stats s)"
     "indirectHits (stats s') = indirectHits (stats s)"
     "indirectMisses (stats s') = indirectMisses (stats s)"
     "stats_le (stats s) (stats s')"
    by blast
  show ?thesis unfolding counted_def
    using c(1) st silent_filters[OF c(2)]
    by (intro exI[of _ "(ppMisses_notify 1, respond env (calls s) (ppMisses_notify 1)) # ext"])
       (simp add: btb_asked_def btb_hit_def iPred_asked_def iPred_hit_def iPred_miss_def)
qed

lemma step_counted:
  assumes "step env x s = Inr s'"
  shows "counted s s'"
proof (cases x)
  case (Predict i sn pcs t)
  then obtain tk p where "predict env i sn pcs t s = Inr (tk, p, s')"
    using assms by (auto simp: bind_err_def split: sum.splits)
  then show ?thesis by (rule predict_counted)
next
  case (Update d t)
  then show ?thesis using assms update_counted by simp
next
  case (Squash sn t)
  then show ?thesis using assms squash_counted by simp
next
  case (SquashMispredict sn corr taken t)
  then show ?thesis using assms squash_mispredict_counted by simp
qed

lemma run_counted:
  "run env xs s = Inr s' \<Longrightarrow> counted s s'"
proof (induction xs arbitrary: s)
  case Nil
  then show ?case by (simp add: counted_refl)
next
  case (Cons x xs)
  then obtain s1 where 1: "step env x s = Inr s1" and 2: "run env xs s1 = Inr s'"
    by (auto split: sum.splits)
  from counted_trans[OF step_counted[OF 1] Cons.IH[OF 2]] show ?case .
qed

lemma hits_le_asked: "length (filter btb_hit ext) \<le> length (filter btb_asked ext)"
  by (induction ext) (auto simp: btb_hit_def btb_asked_def)

lemma iPred_hit_miss:
  "length (filter iPred_hit ext) + length (filter iPred_miss ext) = length (filter iPred_asked ext)"
  by (induction ext) (auto simp: iPred_hit_def iPred_miss_def iPred_asked_def)

text \<open>
  Claim C8 (property P5 of the spec). After any run of \<open>predict\<close>, \<open>update\<close> and the two
  forms of \<open>squash\<close> that returns, every counter is at least what it was; \<open>BTBLookups\<close>
  has gone up by the number of BTB lookups made and \<open>BTBHits\<close> by the number of those that
  gave a target; \<open>indirectLookups\<close>, \<open>indirectHits\<close> and \<open>indirectMisses\<close> have gone up by
  the numbers of lookups of the indirect predictor, of those that gave a target and of
  those that gave none. So \<open>BTBHits \<le> BTBLookups\<close> and
  \<open>indirectHits + indirectMisses = indirectLookups\<close> hold after the run when they held
  before it, as they do for a new unit, whose counters are all zero.
\<close>

theorem run_stats:
  assumes "run env xs s = Inr s'"
  shows "stats_le (stats s) (stats s') \<and>
     BTBLookups (stats s') = BTBLookups (stats s) + length (filter btb_asked (new_calls s s')) \<and>
     BTBHits (stats s') = BTBHits (stats s) + length (filter btb_hit (new_calls s s')) \<and>
     indirectLookups (stats s') =
       indirectLookups (stats s) + length (filter iPred_asked (new_calls s s')) \<and>
     indirectHits (stats s') = indirectHits (stats s) + length (filter iPred_hit (new_calls s s')) \<and>
     indirectMisses (stats s') =
       indirectMisses (stats s) + length (filter iPred_miss (new_calls s s')) \<and>
     (BTBHits (stats s) \<le> BTBLookups (stats s) \<longrightarrow> BTBHits (stats s') \<le> BTBLookups (stats s')) \<and>
     (indirectHits (stats s) + indirectMisses (stats s) = indirectLookups (stats s) \<longrightarrow>
        indirectHits (stats s') + indirectMisses (stats s') = indirectLookups (stats s'))"
proof -
  from run_counted[OF assms] obtain ext where
    e: "calls s' = calls s @ ext"
     "BTBLookups (stats s') = BTBLookups (stats s) + length (filter btb_asked ext)"
     "BTBHits (stats s') = BTBHits (stats s) + length (filter btb_hit ext)"
     "indirectLookups (stats s') = indirectLookups (stats s) + length (filter iPred_asked ext)"
     "indirectHits (stats s') = indirectHits (stats s) + length (filter iPred_hit ext)"
     "indirectMisses (stats s') = indirectMisses (stats s) + length (filter iPred_miss ext)"
     "stats_le (stats s) (stats s')"
    unfolding counted_def by blast
  have n: "new_calls s s' = ext" using e(1) by (simp add: new_calls_def)
  show ?thesis unfolding n
    using e(2-7) hits_le_asked[of ext] iPred_hit_miss[of ext] by simp
qed

theorem run_stats_witness:
  "\<exists>s'. run ex_hit (ex_two_ops @ [SquashMispredict 12 (PCState 0x3000 0) True 0, Update 12 0])
            (BPredUnit_init 1) = Inr s' \<and>
        stats_le (stats (BPredUnit_init 1)) (stats s') \<and>
        BTBLookups (stats s') = length (filter btb_asked (new_calls (BPredUnit_init 1) s')) \<and>
        BTBHits (stats s') \<le> BTBLookups (stats s') \<and>
        indirectHits (stats s') + indirectMisses (stats s') = indirectLookups (stats s')"
proof -
  let ?S = "BPredUnit_init 1"
  let ?R = "run ex_hit (ex_two_ops @ [SquashMispredict 12 (PCState 0x3000 0) True 0, Update 12 0]) ?S"
  have "case ?R of Inr s \<Rightarrow> True | Inl e \<Rightarrow> False" by code_simp
  then obtain s' where r: "?R = Inr s'" by (cases ?R) auto
  have z: "BTBHits (stats ?S) \<le> BTBLookups (stats ?S)"
          "indirectHits (stats ?S) + indirectMisses (stats ?S) = indirectLookups (stats ?S)"
          "BTBLookups (stats ?S) = 0"
    by (simp_all add: ex_defs)
  note th = run_stats[OF r]
  have 1: "stats_le (stats ?S) (stats s')" using th by blast
  have 2: "BTBLookups (stats s') = length (filter btb_asked (new_calls ?S s'))"
    using th z(3) by simp
  have 3: "BTBHits (stats s') \<le> BTBLookups (stats s')" using th z(1) by blast
  have 4: "indirectHits (stats s') + indirectMisses (stats s') = indirectLookups (stats s')"
    using th z(2) by blast
  show ?thesis using r 1 2 3 4
    by - (rule exI[of _ s'], (intro conjI; assumption))
qed

section \<open>The order of the queues\<close>

lemma sorted_wrt_middle:
  "sorted_wrt R (a @ m @ b) \<Longrightarrow> sorted_wrt R m"
  by (simp add: sorted_wrt_append)

lemma queues_decreasing_sub:
  assumes "queues_decreasing seen s" and "t < length (predHist s)"
      and "predHist s' = (predHist s)[t := q]"
      and "map seqNum (predHist s ! t) = a @ map seqNum q @ b"
  shows "queues_decreasing seen s'"
proof -
  have so: "sorted_wrt (\<lambda>a b. b < a) (map seqNum (predHist s ! t))"
    and se: "\<forall>h \<in> set (predHist s ! t). (t, seqNum h) \<in> set seen"
    using assms(1,2) by (auto simp: queues_decreasing_def)
  have 1: "sorted_wrt (\<lambda>a b. b < a) (map seqNum q)"
    using so unfolding assms(4) by (rule sorted_wrt_middle)
  have "set (map seqNum q) \<subseteq> set (map seqNum (predHist s ! t))"
    unfolding assms(4) by auto
  then have 2: "\<forall>h \<in> set q. (t, seqNum h) \<in> set seen"
    using se by auto
  show ?thesis
    using assms(1,2) 1 2 unfolding queues_decreasing_def assms(3)
    by (auto simp: nth_list_update)
qed

lemma queues_decreasing_push:
  assumes "queues_decreasing seen s" and "t < length (predHist s)"
      and "predHist s' = (predHist s)[t := rc # predHist s ! t]"
      and "\<forall>e \<in> set seen. fst e = t \<longrightarrow> snd e < seqNum rc"
  shows "queues_decreasing ((t, seqNum rc) # seen) s'"
proof -
  have se: "\<forall>h \<in> set (predHist s ! t). (t, seqNum h) \<in> set seen"
    using assms(1,2) by (auto simp: queues_decreasing_def)
  then have "\<forall>h \<in> set (predHist s ! t). seqNum h < seqNum rc"
    using assms(4) by fastforce
  then show ?thesis
    using assms(1,2) unfolding queues_decreasing_def assms(3)
    by (auto simp: nth_list_update)
qed

lemma step_queues:
  assumes "step env x s = Inr s'" and "queues_decreasing seen s" and "sn_increasing seen (x # xs)"
  shows "\<exists>seen'. queues_decreasing seen' s' \<and> sn_increasing seen' xs"
proof (cases x)
  case (Predict i sn pcs t)
  then obtain tk p where p: "predict env i sn pcs t s = Inr (tk, p, s')"
    using assms(1) by (auto simp: bind_err_def split: sum.splits)
  from predict_queue[OF p] obtain rc where
    q: "t < length (predHist s)" "predHist s' = (predHist s)[t := rc # predHist s ! t]"
       "seqNum rc = sn" by blast
  have f: "\<forall>e \<in> set seen. fst e = t \<longrightarrow> snd e < seqNum rc"
    using assms(3) q(3) Predict by simp
  have "queues_decreasing ((t, sn) # seen) s'"
    using queues_decreasing_push[OF assms(2) q(1,2) f] q(3) by simp
  moreover have "sn_increasing ((t, sn) # seen) xs" using assms(3) Predict by simp
  ultimately show ?thesis by blast
next
  case (Update d t)
  then have u: "update env d t s = Inr s'" using assms(1) by simp
  have t: "t < length (predHist s)" and e: "s' = update_loop env d t s"
    using u by (auto simp: update_def split: if_splits)
  let ?P = "\<lambda>b. seqNum b \<le> d"
  let ?h = "predHist s ! t"
  have ph: "predHist s' = (predHist s)[t := rev (dropWhile ?P (rev ?h))]"
    using update_loop_char[OF t, of env d] e by simp
  have "?h = rev (dropWhile ?P (rev ?h)) @ rev (takeWhile ?P (rev ?h))"
    by (metis rev_append rev_rev_ident takeWhile_dropWhile_id)
  then have "map seqNum ?h = [] @ map seqNum (rev (dropWhile ?P (rev ?h))) @
                map seqNum (rev (takeWhile ?P (rev ?h)))"
    by (metis append_Nil map_append)
  from queues_decreasing_sub[OF assms(2) t ph this]
  show ?thesis using assms(3) Update by auto
next
  case (Squash sn t)
  then have u: "squash env sn t s = Inr s'" using assms(1) by simp
  let ?P = "\<lambda>h. sn < seqNum h"
  let ?h = "predHist s ! t"
  from squash_char[OF u] have t: "t < length (predHist s)"
     and ph: "predHist s' = (predHist s)[t := dropWhile ?P ?h]" by auto
  have "map seqNum ?h = map seqNum (takeWhile ?P ?h) @ map seqNum (dropWhile ?P ?h) @ []"
    by (metis append_Nil2 map_append takeWhile_dropWhile_id)
  from queues_decreasing_sub[OF assms(2) t ph this]
  show ?thesis using assms(3) Squash by auto
next
  case (SquashMispredict sn corr taken t)
  then have u: "squash_mispredict env sn corr taken t s = Inr s'" using assms(1) by simp
  let ?P = "\<lambda>h. sn < seqNum h"
  let ?h = "predHist s ! t"
  from squash_mispredict_char[OF u] obtain q where t: "t < length (predHist s)"
     and ph: "predHist s' = (predHist s)[t := q]"
     and m: "map seqNum q = map seqNum (dropWhile ?P ?h)" by blast
  have "map seqNum ?h = map seqNum (takeWhile ?P ?h) @ map seqNum q @ []"
    unfolding m by (metis append_Nil2 map_append takeWhile_dropWhile_id)
  from queues_decreasing_sub[OF assms(2) t ph this]
  show ?thesis using assms(3) SquashMispredict by auto
qed

lemma run_queues:
  "run env xs s = Inr s' \<Longrightarrow> queues_decreasing seen s \<Longrightarrow> sn_increasing seen xs \<Longrightarrow>
     \<exists>seen'. queues_decreasing seen' s'"
proof (induction xs arbitrary: s seen)
  case Nil
  then show ?case by auto
next
  case (Cons x xs)
  then obtain s1 where 1: "step env x s = Inr s1" and 2: "run env xs s1 = Inr s'"
    by (auto split: sum.splits)
  from step_queues[OF 1 Cons.prems(2,3)] obtain seen1 where
    "queues_decreasing seen1 s1" "sn_increasing seen1 xs" by blast
  from Cons.IH[OF 2 this] show ?case .
qed

text \<open>
  Claim C7 (property P1 of the spec). Let every queue of \<open>s\<close> be strictly decreasing from
  front to back and hold only sequence numbers already passed to \<open>predict\<close> for its
  thread (\<open>seen\<close>); a new unit is such a state, with nothing seen. Let a run of \<open>predict\<close>,
  \<open>update\<close>, flush squash and misprediction squash, in any order and number, return, each
  \<open>predict\<close> with a sequence number greater than all those passed before for its thread.
  Then every queue of the unit reached is strictly decreasing in \<open>seqNum\<close> from front to
  back. A run of one operation is the preservation by that operation.
\<close>

theorem run_queues_decreasing:
  assumes "run env xs s = Inr s'" and "sn_increasing seen xs" and "queues_decreasing seen s"
      and "t < length (predHist s')"
  shows "sorted_wrt (\<lambda>a b. b < a) (map seqNum (predHist s' ! t))"
  using run_queues[OF assms(1,3,2)] assms(4) by (auto simp: queues_decreasing_def)

theorem run_queues_decreasing_witness:
  "\<exists>s'. run ex_hit (ex_two_ops @ [SquashMispredict 12 (PCState 0x3000 0) True 0,
                                 Predict ex_jump 13 (PCState 0x3000 0) 0, Update 10 0])
            (BPredUnit_init 1) = Inr s' \<and>
        map seqNum (predHist s' ! 0) = [13, 12] \<and>
        sorted_wrt (\<lambda>a b. b < a) (map seqNum (predHist s' ! 0))"
proof -
  let ?S = "BPredUnit_init 1"
  let ?ops = "ex_two_ops @ [SquashMispredict 12 (PCState 0x3000 0) True 0,
                            Predict ex_jump 13 (PCState 0x3000 0) 0, Update 10 0]"
  let ?R = "run ex_hit ?ops ?S"
  have "case ?R of Inr s \<Rightarrow> 0 < length (predHist s) \<and> map seqNum (predHist s ! 0) = [13, 12]
        | Inl e \<Rightarrow> False" by code_simp
  then obtain s' where r: "?R = Inr s'" and t: "0 < length (predHist s')"
     and m: "map seqNum (predHist s' ! 0) = [13, 12]" by (cases ?R) auto
  have i: "sn_increasing [] ?ops" by (simp add: ex_two_ops_def)
  have q: "queues_decreasing [] ?S" by (simp add: queues_decreasing_def ex_defs)
  from run_queues_decreasing[OF r i q t]
  have 1: "sorted_wrt (\<lambda>a b. b < a) (map seqNum (predHist s' ! 0))" .
  show ?thesis using r m 1
    by - (rule exI[of _ s'], (intro conjI; assumption))
qed

end
